theory Spec2Isabelle
  imports Main "HOL-Library.AList"
begin

section \<open>JavaScript values and objects\<close>

text \<open>
  The router keeps three plain JavaScript objects: \<open>state\<close>, \<open>candidate\<close> and, inside one
  poll cycle, \<open>changes\<close>. An object created by \<open>{}\<close> is modelled by the map of its own
  properties; what it inherits from \<open>Object.prototype\<close> is made explicit in the two
  operations that can see it:
  \<^item> a read \<open>obj[key]\<close> yields the own property, or else a member of \<open>Object.prototype\<close>
    (a function or an object: truthy, never a string, without a \<open>value\<close> property), or
    else \<open>undefined\<close>;
  \<^item> an assignment \<open>obj[key] = v\<close> of a string \<open>v\<close> creates or overwrites the own property,
    except for the key \<open>__proto__\<close>, whose inherited setter ignores every value that is
    neither an object nor \<open>null\<close>.
  A character stands for a UTF-16 code unit below 256. Numbers are integers; floating
  point is outside the model.
\<close>

datatype 'a slot = Own 'a | Inherited | Undefined

definition object_prototype_names :: "string list" where
  "object_prototype_names =
     [''constructor'', ''__defineGetter__'', ''__defineSetter__'', ''hasOwnProperty'',
      ''__lookupGetter__'', ''__lookupSetter__'', ''isPrototypeOf'', ''propertyIsEnumerable'',
      ''toString'', ''valueOf'', ''__proto__'', ''toLocaleString'']"

definition js_get :: "(string \<rightharpoonup> 'a) \<Rightarrow> string \<Rightarrow> 'a slot" where
  "js_get obj k =
     (case obj k of
        Some v \<Rightarrow> Own v
      | None \<Rightarrow> if k \<in> set object_prototype_names then Inherited else Undefined)"

definition js_set :: "(string \<rightharpoonup> string) \<Rightarrow> string \<Rightarrow> string \<Rightarrow> (string \<rightharpoonup> string)" where
  "js_set obj k v = (if k = ''__proto__'' then obj else obj(k \<mapsto> v))"

text \<open>
  \<open>changes\<close> is enumerated (\<open>Object.keys\<close>) and serialised, so it is kept as the list of
  its own properties in insertion order.
\<close>

definition js_set_entries :: "(string \<times> string) list \<Rightarrow> string \<Rightarrow> string \<Rightarrow> (string \<times> string) list" where
  "js_set_entries obj k v = (if k = ''__proto__'' then obj else AList.update k v obj)"

text \<open>\<open>String.prototype.trim\<close>: white space and line terminators go from both ends.\<close>

definition is_space :: "char \<Rightarrow> bool" where
  "is_space c = (of_char c \<in> set [9, 10, 11, 12, 13, 32, 160 :: nat])"

definition trim :: "string \<Rightarrow> string" where
  "trim s = rev (dropWhile is_space (rev (dropWhile is_space s)))"

datatype error = FetchError | CsvFetchFailed int | BodyError | TypeError

text \<open>
  A parsed JSON value, as \<open>express.json()\<close> leaves it in \<open>req.body\<close>. A number is
  represented by its rendering under \<open>Number.prototype.toString\<close>; an object by its own
  properties.
\<close>

datatype json = JNull | JBool bool | JNum string | JStr string | JArr "json list"
  | JObj "(string \<times> json) list"

fun join :: "string list \<Rightarrow> string" where
  "join [] = []"
| "join [s] = s"
| "join (s # t # ss) = s @ '','' @ join (t # ss)"

text \<open>
  \<open>v.toString()\<close>. A parsed JSON object never holds a function, so an own property named
  \<open>toString\<close> makes the call throw; \<open>null\<close> has no properties at all. An array joins the
  strings of its elements, \<open>null\<close> elements giving the empty string.
\<close>

fun toString :: "json \<Rightarrow> error + string"
  and element_strings :: "json list \<Rightarrow> error + string list" where
  "toString JNull = Inl TypeError"
| "toString (JBool b) = Inr (if b then ''true'' else ''false'')"
| "toString (JNum r) = Inr r"
| "toString (JStr s) = Inr s"
| "toString (JArr xs) =
     (case element_strings xs of Inl e \<Rightarrow> Inl e | Inr ss \<Rightarrow> Inr (join ss))"
| "toString (JObj ps) =
     (if ''toString'' \<in> fst ` set ps then Inl TypeError else Inr ''[object Object]'')"
| "element_strings [] = Inr []"
| "element_strings (x # xs) =
     (case (if x = JNull then Inr [] else toString x) of
        Inl e \<Rightarrow> Inl e
      | Inr s \<Rightarrow> (case element_strings xs of Inl e \<Rightarrow> Inl e | Inr ss \<Rightarrow> Inr (s # ss)))"

text \<open>\<open>!v\<close> for a value read from the body (\<open>None\<close> is \<open>undefined\<close>).\<close>

fun falsy :: "json option \<Rightarrow> bool" where
  "falsy None = True"
| "falsy (Some JNull) = True"
| "falsy (Some (JBool b)) = (\<not> b)"
| "falsy (Some (JNum r)) = (r = ''0'')"
| "falsy (Some (JStr s)) = (s = [])"
| "falsy (Some (JArr xs)) = False"
| "falsy (Some (JObj ps)) = False"

text \<open>
  \<open>const { key, value } = req.body || {}\<close>: only an object body has the two properties;
  a missing body, an array and every primitive give \<open>undefined\<close> for both.
\<close>

definition field :: "json option \<Rightarrow> string \<Rightarrow> json option" where
  "field body name = (case body of Some (JObj ps) \<Rightarrow> map_of ps name | _ \<Rightarrow> None)"

section \<open>The router's state\<close>

record candidate_entry =
  c_value :: string
  c_count :: int

record router =
  state :: "string \<rightharpoonup> string"
  candidate :: "string \<rightharpoonup> candidate_entry"
  lastFetchOkAt :: "string option"

definition init :: router where
  "init = \<lparr>state = Map.empty, candidate = Map.empty, lastFetchOkAt = None\<rparr>"

datatype message = Patch (ts: string) (changes: "(string \<times> string) list")

datatype ready_state = CONNECTING | OPEN | CLOSING | CLOSED

record client =
  client_id :: nat
  readyState :: ready_state

text \<open>\<open>broadcast\<close>: the payload goes to every client whose socket is open.\<close>

definition broadcast :: "client list \<Rightarrow> message \<Rightarrow> (nat \<times> message) list" where
  "broadcast clients msgObj =
     map (\<lambda>c. (client_id c, msgObj)) (filter (\<lambda>c. readyState c = OPEN) clients)"

section \<open>The override endpoint\<close>

datatype response = Status400 string | Json200 string "string slot"

text \<open>\<open>(value ?? "").toString()\<close>\<close>

definition to_text :: "json option \<Rightarrow> error + string" where
  "to_text val = toString (case val of None \<Rightarrow> JStr [] | Some JNull \<Rightarrow> JStr [] | Some j \<Rightarrow> j)"

text \<open>
  \<open>POST /override\<close>. \<open>now\<close> is what \<open>nowIso()\<close> returns. The result holds the new state,
  the argument of the \<open>broadcast\<close> call when there is one, and the response; \<open>Inl\<close> is an
  exception escaping the handler, before anything was written.
\<close>

definition override :: "json option \<Rightarrow> string \<Rightarrow> router \<Rightarrow> error + router \<times> message option \<times> response" where
  "override body now s =
     (let key = field body ''key''; val = field body ''value'' in
      case (if falsy key then None else key) of
        Some (JStr k) \<Rightarrow>
          (case to_text val of
             Inl e \<Rightarrow> Inl e
           | Inr v \<Rightarrow>
               let prev = js_get (state s) k in
               if prev \<noteq> Own v
               then let s' = s\<lparr>state := js_set (state s) k v\<rparr>
                    in Inr (s', Some (Patch now [(k, v)]), Json200 k (js_get (state s') k))
               else Inr (s, None, Json200 k (js_get (state s) k)))
      | _ \<Rightarrow> Inr (s, None, Status400 ''Missing key''))"

section \<open>The poll cycle\<close>

type_synonym entries = "(string \<times> string option) list"

datatype fetched = FetchThrows | Response bool int "string option"

text \<open>
  \<open>pollOnce\<close>: \<open>fetch\<close> may throw, the status may be bad, reading the body may fail;
  otherwise the text is decoded. The decoder is a parameter: a pure function of the text
  whose result \<open>Object.entries\<close> enumerates.
\<close>

definition pollOnce :: "(string \<Rightarrow> entries) \<Rightarrow> fetched \<Rightarrow> error + entries" where
  "pollOnce parseCsvKeyValue f =
     (case f of
        FetchThrows \<Rightarrow> Inl FetchError
      | Response ok status text \<Rightarrow>
          if \<not> ok then Inl (CsvFetchFailed status)
          else (case text of None \<Rightarrow> Inl BodyError | Some t \<Rightarrow> Inr (parseCsvKeyValue t)))"

definition commitChange :: "(string \<rightharpoonup> string) \<Rightarrow> string \<Rightarrow> string \<Rightarrow> bool \<times> (string \<rightharpoonup> string)" where
  "commitChange st key v =
     (let prev = js_get st key in if prev = Own v then (False, st) else (True, js_set st key v))"

text \<open>
  The stability logic of one key: the entry that \<open>candidate[key]\<close> holds after the
  \<open>if (!c || c.value !== next)\<close> statement.
\<close>

definition staged :: "(string \<rightharpoonup> candidate_entry) \<Rightarrow> string \<Rightarrow> string \<Rightarrow> candidate_entry" where
  "staged cd key next =
     (case js_get cd key of
        Own c \<Rightarrow>
          if c_value c \<noteq> next then \<lparr>c_value = next, c_count = 1\<rparr>
          else c\<lparr>c_count := c_count c + 1\<rparr>
      | _ \<Rightarrow> \<lparr>c_value = next, c_count = 1\<rparr>)"

type_synonym tracker = "(string \<rightharpoonup> string) \<times> (string \<rightharpoonup> candidate_entry) \<times> (string \<times> string) list"

text \<open>\<open>(raw ?? "").trim()\<close>, the value observed for a key.\<close>

definition next_of :: "string option \<Rightarrow> string" where
  "next_of raw = trim (case raw of None \<Rightarrow> [] | Some r \<Rightarrow> r)"

text \<open>
  One iteration of the \<open>for\<close> loop over \<open>Object.entries(kv)\<close>, with \<open>T\<close> for
  \<open>REQUIRE_STABLE_READS\<close>, an integer. The decoder stores a row by an assignment
  \<open>out[k] = v\<close> of a string, so a decoded mapping never has the key \<open>__proto__\<close>;
  the entry \<open>candidate[key] = {...}\<close> is therefore always an own property.
\<close>

definition visit :: "int \<Rightarrow> string \<times> string option \<Rightarrow> tracker \<Rightarrow> tracker" where
  "visit T e trk =
     (case e of (key, raw) \<Rightarrow> case trk of (st, cd, chg) \<Rightarrow>
        let next = next_of raw;
            current = js_get st key
        in if current = Own next then (st, cd(key := None), chg)
           else
             let c = staged cd key next; cd1 = cd(key \<mapsto> c) in
             if T \<le> c_count c
             then (case commitChange st key next of
                     (changed, st') \<Rightarrow>
                       (st', cd1(key := None),
                        if changed then js_set_entries chg key next else chg))
             else (st, cd1, chg))"

definition reconcile :: "int \<Rightarrow> entries \<Rightarrow> tracker \<Rightarrow> tracker" where
  "reconcile T kv trk = fold (visit T) kv trk"

text \<open>
  \<open>loop\<close>, one cycle: \<open>polled\<close> is the outcome of \<open>await pollOnce()\<close>, \<open>t1\<close> and \<open>t2\<close> are
  the two readings of \<open>nowIso()\<close>. The result is the new state and the argument of the
  \<open>broadcast\<close> call when there is one.
\<close>

definition loop :: "int \<Rightarrow> error + entries \<Rightarrow> string \<Rightarrow> string \<Rightarrow> router \<Rightarrow> router \<times> message option" where
  "loop T polled t1 t2 s =
     (case polled of
        Inl err \<Rightarrow> (s, None)
      | Inr kv \<Rightarrow>
          (case reconcile T kv (state s, candidate s, []) of
             (st, cd, chg) \<Rightarrow>
               (\<lparr>state = st, candidate = cd, lastFetchOkAt = Some t1\<rparr>,
                if chg \<noteq> [] then Some (Patch t2 chg) else None)))"

text \<open>
  What the sockets receive in one cycle: \<open>loop\<close> hands its patch, when it has one,
  to \<open>broadcast\<close>, which sends it to the open clients; without a patch nothing is
  sent.
\<close>

definition loop_sends :: "client list \<Rightarrow> int \<Rightarrow> error + entries \<Rightarrow> string \<Rightarrow> string \<Rightarrow> router \<Rightarrow> (nat \<times> message) list" where
  "loop_sends clients T polled t1 t2 s =
     (case snd (loop T polled t1 t2 s) of
        None \<Rightarrow> []
      | Some msgObj \<Rightarrow> broadcast clients msgObj)"

section \<open>Runs of the router\<close>

text \<open>
  The router is single-threaded: its history is a sequence of poll cycles and override
  requests, each running to completion. \<open>exec\<close> gives the state after one of them and
  the \<open>broadcast\<close> call it makes; an override whose handler throws leaves the state as
  it was.
\<close>

datatype event = Poll "error + entries" string string | Post "json option" string

definition exec :: "int \<Rightarrow> event \<Rightarrow> router \<Rightarrow> router \<times> message option" where
  "exec T ev s =
     (case ev of
        Poll polled t1 t2 \<Rightarrow> loop T polled t1 t2 s
      | Post body now \<Rightarrow>
          (case override body now s of Inl e \<Rightarrow> (s, None) | Inr (s', m, r) \<Rightarrow> (s', m)))"

fun run :: "int \<Rightarrow> event list \<Rightarrow> router \<Rightarrow> router \<times> message list" where
  "run T [] s = (s, [])"
| "run T (ev # evs) s =
     (case exec T ev s of
        (s', m) \<Rightarrow>
          (case run T evs s' of
             (s'', ms) \<Rightarrow> (s'', (case m of None \<Rightarrow> [] | Some x \<Rightarrow> [x]) @ ms)))"

text \<open>
  The values decoded for a key, oldest first: one for each successful cycle whose
  decoded mapping has the key.
\<close>

definition obs_entries :: "string \<Rightarrow> entries \<Rightarrow> string list" where
  "obs_entries k kv = map (\<lambda>e. next_of (snd e)) (filter (\<lambda>e. fst e = k) kv)"

fun obs_event :: "string \<Rightarrow> event \<Rightarrow> string list" where
  "obs_event k (Poll (Inr kv) t1 t2) = obs_entries k kv"
| "obs_event k (Poll (Inl e) t1 t2) = []"
| "obs_event k (Post body now) = []"

definition observations :: "string \<Rightarrow> event list \<Rightarrow> string list" where
  "observations k evs = concat (map (obs_event k) evs)"

text \<open>
  A decoded mapping holds the value \<open>v\<close> for the key \<open>k\<close>: its entries are those of
  an object, so no key comes twice, and the entry of \<open>k\<close> is observed as \<open>v\<close>.
\<close>

definition decodes :: "entries \<Rightarrow> string \<Rightarrow> string \<Rightarrow> bool" where
  "decodes kv k v = (distinct (map fst kv) \<and> map_option next_of (map_of kv k) = Some v)"

fun poll_decodes :: "string \<Rightarrow> string \<Rightarrow> event \<Rightarrow> bool" where
  "poll_decodes k v (Poll (Inr kv) t1 t2) = decodes kv k v"
| "poll_decodes k v (Poll (Inl e) t1 t2) = False"
| "poll_decodes k v (Post body now) = False"

text \<open>
  The candidate counter for a key and a value: the count of the key's candidate entry
  when that entry stages the value, and 0 when nothing stages it.
\<close>

definition counter :: "(string \<rightharpoonup> candidate_entry) \<Rightarrow> string \<Rightarrow> string \<Rightarrow> int" where
  "counter cd k v =
     (case cd k of None \<Rightarrow> 0 | Some c \<Rightarrow> if c_value c = v then c_count c else 0)"

text \<open>
  How many of the most recent observations of a key, without a break, were the value
  \<open>v\<close>.
\<close>

definition streak_of :: "string \<Rightarrow> string list \<Rightarrow> nat" where
  "streak_of v xs = length (takeWhile (\<lambda>x. x = v) (rev xs))"

definition streak :: "string \<Rightarrow> string \<Rightarrow> event list \<Rightarrow> nat" where
  "streak k v evs = streak_of v (observations k evs)"

text \<open>The second invariant of the data model.\<close>

definition candidate_differs :: "router \<Rightarrow> bool" where
  "candidate_differs s = (\<forall>k c. candidate s k = Some c \<longrightarrow> state s k \<noteq> Some (c_value c))"

section \<open>Basic facts\<close>

text \<open>The equations that evaluate a concrete cycle or request.\<close>

lemmas router_defs =
  loop_def reconcile_def visit_def Let_def staged_def commitChange_def js_get_def js_set_def
  js_set_entries_def object_prototype_names_def exec_def override_def field_def to_text_def
  init_def

subsection \<open>Objects\<close>

lemma js_get_Own [simp]: "js_get m k = Own v \<longleftrightarrow> m k = Some v"
  by (auto simp: js_get_def split: option.splits)

lemma js_set_other [simp]: "k' \<noteq> k \<Longrightarrow> js_set m k v k' = m k'"
  by (simp add: js_set_def)

lemma js_set_dom: "dom m \<subseteq> dom (js_set m k v)"
  by (auto simp: js_set_def)

lemma map_of_js_set_entries:
  "map_of (js_set_entries chg k v) = js_set (map_of chg) k v"
  by (simp add: js_set_entries_def js_set_def update_conv')

lemma distinct_js_set_entries:
  "distinct (map fst chg) \<Longrightarrow> distinct (map fst (js_set_entries chg k v))"
  by (simp add: js_set_entries_def distinct_update)

lemma js_set_at: "js_set m k v k = (if k = ''__proto__'' then m k else Some v)"
  by (simp add: js_set_def)

lemma broadcast_reaches_open_clients:
  "(i, m) \<in> set (broadcast clients msgObj) \<longleftrightarrow>
     m = msgObj \<and> (\<exists>c \<in> set clients. client_id c = i \<and> readyState c = OPEN)"
  by (auto simp: broadcast_def)

subsection \<open>One key in one cycle\<close>

lemma next_of_plain [simp]:
  "next_of (Some ''x'') = ''x''" "next_of (Some ''y'') = ''y''" "next_of (Some []) = []"
  by (simp_all add: next_of_def trim_def is_space_def)

lemma staged_value [simp]: "c_value (staged cd key nxt) = nxt"
  by (auto simp: staged_def js_get_def split: option.splits slot.splits)

lemma visit_other:
  assumes "visit T e (st, cd, chg) = (st', cd', chg')" and "fst e \<noteq> k"
  shows "st' k = st k \<and> cd' k = cd k \<and> map_of chg' k = map_of chg k"
  using assms
  by (cases e) (auto simp: visit_def Let_def commitChange_def map_of_js_set_entries
      split: if_splits prod.splits)

lemma reconcile_other:
  assumes "reconcile T kv (st, cd, chg) = (st', cd', chg')" and "k \<notin> fst ` set kv"
  shows "st' k = st k \<and> cd' k = cd k \<and> map_of chg' k = map_of chg k"
  using assms
proof (induction kv arbitrary: st cd chg)
  case Nil
  then show ?case by (simp add: reconcile_def)
next
  case (Cons e kv)
  obtain st1 cd1 chg1 where v: "visit T e (st, cd, chg) = (st1, cd1, chg1)"
    by (cases "visit T e (st, cd, chg)") auto
  from Cons.prems have r: "reconcile T kv (st1, cd1, chg1) = (st', cd', chg')"
    and n: "fst e \<noteq> k" "k \<notin> fst ` set kv"
    by (auto simp: reconcile_def v)
  from Cons.IH[OF r n(2)] visit_other[OF v n(1)] show ?case by simp
qed

lemma staged_cong: "cd k = cd1 k \<Longrightarrow> staged cd k n = staged cd1 k n"
  by (simp add: staged_def js_get_def)

lemma visit_at:
  assumes "visit T (k, raw) (st, cd, chg) = (st', cd', chg')"
  shows "st k = Some (next_of raw) \<Longrightarrow>
           st' k = st k \<and> cd' k = None \<and> map_of chg' k = map_of chg k"
    and "st k \<noteq> Some (next_of raw) \<Longrightarrow> \<not> T \<le> c_count (staged cd k (next_of raw)) \<Longrightarrow>
           st' k = st k \<and> cd' k = Some (staged cd k (next_of raw)) \<and> map_of chg' k = map_of chg k"
    and "st k \<noteq> Some (next_of raw) \<Longrightarrow> T \<le> c_count (staged cd k (next_of raw)) \<Longrightarrow>
           st' k = js_set st k (next_of raw) k \<and> cd' k = None \<and>
           map_of chg' k = js_set (map_of chg) k (next_of raw) k"
  using assms
  by (auto simp: visit_def Let_def commitChange_def map_of_js_set_entries split: if_splits)

lemma reconcile_append:
  "reconcile T (xs @ ys) trk = reconcile T ys (reconcile T xs trk)"
  by (simp add: reconcile_def)

lemma reconcile_Cons:
  "reconcile T (e # kv) trk = reconcile T kv (visit T e trk)"
  by (simp add: reconcile_def)

lemma reconcile_Nil: "reconcile T [] trk = trk"
  by (simp add: reconcile_def)

lemma reconcile_split:
  assumes d: "distinct (map fst kv)" and m: "(k, raw) \<in> set kv"
    and r: "reconcile T kv (st, cd, chg) = (st', cd', chg')"
  obtains st1 cd1 chg1 st2 cd2 chg2 where
    "st1 k = st k" "cd1 k = cd k" "map_of chg1 k = map_of chg k"
    "visit T (k, raw) (st1, cd1, chg1) = (st2, cd2, chg2)"
    "st' k = st2 k" "cd' k = cd2 k" "map_of chg' k = map_of chg2 k"
proof -
  from m obtain pre post where kv: "kv = pre @ (k, raw) # post"
    by (auto dest: split_list)
  with d have np: "k \<notin> fst ` set pre" "k \<notin> fst ` set post" by auto
  obtain st1 cd1 chg1 where p: "reconcile T pre (st, cd, chg) = (st1, cd1, chg1)"
    by (cases "reconcile T pre (st, cd, chg)") auto
  obtain st2 cd2 chg2 where v: "visit T (k, raw) (st1, cd1, chg1) = (st2, cd2, chg2)"
    by (cases "visit T (k, raw) (st1, cd1, chg1)") auto
  from r have q: "reconcile T post (st2, cd2, chg2) = (st', cd', chg')"
    by (simp add: kv reconcile_append reconcile_Cons p v)
  show thesis
  proof (rule that[of st1 cd1 chg1 st2 cd2 chg2])
    show "visit T (k, raw) (st1, cd1, chg1) = (st2, cd2, chg2)" by (rule v)
  qed (use reconcile_other[OF p np(1)] reconcile_other[OF q np(2)] in simp_all)
qed

lemma reconcile_at:
  assumes d: "distinct (map fst kv)" and m: "(k, raw) \<in> set kv"
    and r: "reconcile T kv (st, cd, chg) = (st', cd', chg')"
  shows "st k = Some (next_of raw) \<Longrightarrow>
           st' k = st k \<and> cd' k = None \<and> map_of chg' k = map_of chg k"
    and "st k \<noteq> Some (next_of raw) \<Longrightarrow> \<not> T \<le> c_count (staged cd k (next_of raw)) \<Longrightarrow>
           st' k = st k \<and> cd' k = Some (staged cd k (next_of raw)) \<and> map_of chg' k = map_of chg k"
    and "st k \<noteq> Some (next_of raw) \<Longrightarrow> T \<le> c_count (staged cd k (next_of raw)) \<Longrightarrow>
           st' k = js_set st k (next_of raw) k \<and> cd' k = None \<and>
           map_of chg' k = js_set (map_of chg) k (next_of raw) k"
proof -
  obtain st1 cd1 chg1 st2 cd2 chg2 where
    a: "st1 k = st k" "cd1 k = cd k" "map_of chg1 k = map_of chg k"
    and v: "visit T (k, raw) (st1, cd1, chg1) = (st2, cd2, chg2)"
    and b: "st' k = st2 k" "cd' k = cd2 k" "map_of chg' k = map_of chg2 k"
    by (rule reconcile_split[OF d m r])
  have s: "staged cd1 k (next_of raw) = staged cd k (next_of raw)"
    by (rule staged_cong) (rule a)
  show "st k = Some (next_of raw) \<Longrightarrow>
           st' k = st k \<and> cd' k = None \<and> map_of chg' k = map_of chg k"
    using visit_at(1)[OF v] a b by simp
  show "st k \<noteq> Some (next_of raw) \<Longrightarrow> \<not> T \<le> c_count (staged cd k (next_of raw)) \<Longrightarrow>
           st' k = st k \<and> cd' k = Some (staged cd k (next_of raw)) \<and> map_of chg' k = map_of chg k"
    using visit_at(2)[OF v] a b s by simp
  show "st k \<noteq> Some (next_of raw) \<Longrightarrow> T \<le> c_count (staged cd k (next_of raw)) \<Longrightarrow>
           st' k = js_set st k (next_of raw) k \<and> cd' k = None \<and>
           map_of chg' k = js_set (map_of chg) k (next_of raw) k"
    using visit_at(3)[OF v] a b s by (cases "k = ''__proto__''") (simp_all add: js_set_at)
qed

subsection \<open>The override endpoint\<close>

lemma override_rejected:
  assumes "\<forall>k. field body ''key'' = Some (JStr k) \<longrightarrow> k = []"
  shows "override body now s = Inr (s, None, Status400 ''Missing key'')"
proof (cases "field body ''key''" rule: falsy.cases)
  case (5 k)
  with assms have "k = []" by simp
  with 5 show ?thesis by (simp add: override_def)
qed (simp_all add: override_def)

lemma override_throws:
  assumes "field body ''key'' = Some (JStr k)" "k \<noteq> []" "to_text (field body ''value'') = Inl e"
  shows "override body now s = Inl e"
  using assms by (simp add: override_def)

lemma override_accepted:
  assumes "field body ''key'' = Some (JStr k)" "k \<noteq> []" "to_text (field body ''value'') = Inr v"
  shows "override body now s =
           (if state s k = Some v then Inr (s, None, Json200 k (Own v))
            else Inr (s\<lparr>state := js_set (state s) k v\<rparr>, Some (Patch now [(k, v)]),
                      Json200 k (js_get (js_set (state s) k v) k)))"
  using assms by (simp add: override_def Let_def)

lemma override_not_400:
  assumes "field body ''key'' = Some (JStr k)" "k \<noteq> []"
  shows "override body now s \<noteq> Inr (s', m, Status400 t)"
proof (cases "to_text (field body ''value'')")
  case (Inl e)
  with assms show ?thesis by (simp add: override_throws)
next
  case (Inr v)
  with assms show ?thesis by (simp add: override_accepted)
qed

subsection \<open>Whole cycles and runs\<close>

lemma visit_dom:
  assumes "visit T e (st, cd, chg) = (st', cd', chg')"
  shows "dom st \<subseteq> dom st'"
  using assms js_set_dom[of st "fst e"]
  by (cases e) (auto simp: visit_def Let_def commitChange_def split: if_splits)

lemma reconcile_dom:
  assumes "reconcile T kv (st, cd, chg) = (st', cd', chg')"
  shows "dom st \<subseteq> dom st'"
  using assms
proof (induction kv arbitrary: st cd chg)
  case Nil
  then show ?case by (simp add: reconcile_Nil)
next
  case (Cons e kv)
  obtain st1 cd1 chg1 where v: "visit T e (st, cd, chg) = (st1, cd1, chg1)"
    by (cases "visit T e (st, cd, chg)") auto
  with Cons.prems have "reconcile T kv (st1, cd1, chg1) = (st', cd', chg')"
    by (simp add: reconcile_Cons)
  from Cons.IH[OF this] visit_dom[OF v] show ?case by blast
qed

lemma loop_success:
  assumes "reconcile T kv (state s, candidate s, []) = (st, cd, chg)"
  shows "loop T (Inr kv) t1 t2 s =
           (\<lparr>state = st, candidate = cd, lastFetchOkAt = Some t1\<rparr>,
            if chg \<noteq> [] then Some (Patch t2 chg) else None)"
  using assms by (simp add: loop_def)

lemma loop_dom: "dom (state s) \<subseteq> dom (state (fst (loop T polled t1 t2 s)))"
proof (cases polled)
  case (Inl e)
  then show ?thesis by (simp add: loop_def)
next
  case (Inr kv)
  obtain st cd chg where r: "reconcile T kv (state s, candidate s, []) = (st, cd, chg)"
    by (cases "reconcile T kv (state s, candidate s, [])") auto
  from reconcile_dom[OF r] show ?thesis by (simp add: Inr loop_success[OF r])
qed

lemma override_dom:
  assumes "override body now s = Inr (s', m, r)"
  shows "dom (state s) \<subseteq> dom (state s')"
  using assms
  by (auto simp: override_def Let_def js_set_def
      split: option.splits json.splits sum.splits if_splits)

lemma exec_dom: "dom (state s) \<subseteq> dom (state (fst (exec T ev s)))"
proof (cases ev)
  case (Poll polled t1 t2)
  then show ?thesis by (simp add: exec_def loop_dom)
next
  case (Post body now)
  show ?thesis
  proof (cases "override body now s")
    case (Inl e)
    then show ?thesis by (simp add: exec_def Post)
  next
    case (Inr x)
    then obtain s' m r where "override body now s = Inr (s', m, r)" by (cases x) auto
    with override_dom[OF this] show ?thesis by (simp add: exec_def Post)
  qed
qed

lemma fst_run_Cons: "fst (run T (ev # evs) s) = fst (run T evs (fst (exec T ev s)))"
  by (simp split: prod.splits)

lemma run_dom: "dom (state s) \<subseteq> dom (state (fst (run T evs s)))"
proof (induction evs arbitrary: s)
  case Nil
  then show ?case by simp
next
  case (Cons ev evs)
  have "dom (state s) \<subseteq> dom (state (fst (exec T ev s)))" by (rule exec_dom)
  also have "\<dots> \<subseteq> dom (state (fst (run T evs (fst (exec T ev s)))))" by (rule Cons.IH)
  finally show ?case by (simp only: fst_run_Cons)
qed

lemma loop_absent_key:
  assumes "k \<notin> fst ` set kv"
  shows "state (fst (loop T (Inr kv) t1 t2 s)) k = state s k"
    and "candidate (fst (loop T (Inr kv) t1 t2 s)) k = candidate s k"
proof -
  obtain st cd chg where r: "reconcile T kv (state s, candidate s, []) = (st, cd, chg)"
    by (cases "reconcile T kv (state s, candidate s, [])") auto
  from reconcile_other[OF r assms]
  show "state (fst (loop T (Inr kv) t1 t2 s)) k = state s k"
    and "candidate (fst (loop T (Inr kv) t1 t2 s)) k = candidate s k"
    by (simp_all add: loop_success[OF r])
qed

lemma visit_differs:
  assumes v: "visit T e (st, cd, chg) = (st', cd', chg')"
    and i: "\<forall>k c. cd k = Some c \<longrightarrow> st k \<noteq> Some (c_value c)"
  shows "\<forall>k c. cd' k = Some c \<longrightarrow> st' k \<noteq> Some (c_value c)"
proof (intro allI impI)
  fix k c
  assume c: "cd' k = Some c"
  obtain key raw where e: "e = (key, raw)" by (cases e) auto
  show "st' k \<noteq> Some (c_value c)"
  proof (cases "k = key")
    case False
    with visit_other[OF v, of k] e i c show ?thesis by simp
  next
    case True
    note va = visit_at[OF v[unfolded e]]
    show ?thesis
    proof (cases "st key = Some (next_of raw)")
      case True
      with va(1) c \<open>k = key\<close> show ?thesis by simp
    next
      case False
      show ?thesis
      proof (cases "T \<le> c_count (staged cd key (next_of raw))")
        case True
        with va(3) False c \<open>k = key\<close> show ?thesis by simp
      next
        case n: False
        with va(2) False c \<open>k = key\<close> show ?thesis by auto
      qed
    qed
  qed
qed

lemma reconcile_differs:
  assumes "reconcile T kv (st, cd, chg) = (st', cd', chg')"
    and "\<forall>k c. cd k = Some c \<longrightarrow> st k \<noteq> Some (c_value c)"
  shows "\<forall>k c. cd' k = Some c \<longrightarrow> st' k \<noteq> Some (c_value c)"
  using assms
proof (induction kv arbitrary: st cd chg)
  case Nil
  then show ?case by (simp add: reconcile_Nil)
next
  case (Cons e kv)
  obtain st1 cd1 chg1 where v: "visit T e (st, cd, chg) = (st1, cd1, chg1)"
    by (cases "visit T e (st, cd, chg)") auto
  with Cons.prems have r: "reconcile T kv (st1, cd1, chg1) = (st', cd', chg')"
    by (simp add: reconcile_Cons)
  from Cons.IH[OF r visit_differs[OF v Cons.prems(2)]] show ?case .
qed

lemma loop_differs:
  assumes "candidate_differs s"
  shows "candidate_differs (fst (loop T polled t1 t2 s))"
proof (cases polled)
  case (Inl e)
  with assms show ?thesis by (simp add: loop_def)
next
  case (Inr kv)
  obtain st cd chg where r: "reconcile T kv (state s, candidate s, []) = (st, cd, chg)"
    by (cases "reconcile T kv (state s, candidate s, [])") auto
  from assms have "\<forall>k c. candidate s k = Some c \<longrightarrow> state s k \<noteq> Some (c_value c)"
    by (simp add: candidate_differs_def)
  from reconcile_differs[OF r this] show ?thesis
    by (simp add: Inr loop_success[OF r] candidate_differs_def)
qed

lemma loop_same_value:
  assumes d: "distinct (map fst kv)" and m: "(k, raw) \<in> set kv"
    and c: "state s k = Some (next_of raw)"
  shows "state (fst (loop T (Inr kv) t1 t2 s)) k = state s k"
    and "candidate (fst (loop T (Inr kv) t1 t2 s)) k = None"
    and "\<forall>msg. snd (loop T (Inr kv) t1 t2 s) = Some msg \<longrightarrow> k \<notin> fst ` set (changes msg)"
proof -
  obtain st cd chg where r: "reconcile T kv (state s, candidate s, []) = (st, cd, chg)"
    by (cases "reconcile T kv (state s, candidate s, [])") auto
  from reconcile_at(1)[OF d m r c]
  have a: "st k = state s k" "cd k = None" "map_of chg k = None" by simp_all
  from a(3) have "k \<notin> fst ` set chg" by (simp add: map_of_eq_None_iff)
  with a
  show "state (fst (loop T (Inr kv) t1 t2 s)) k = state s k"
    and "candidate (fst (loop T (Inr kv) t1 t2 s)) k = None"
    and "\<forall>msg. snd (loop T (Inr kv) t1 t2 s) = Some msg \<longrightarrow> k \<notin> fst ` set (changes msg)"
    by (auto simp: loop_success[OF r])
qed

lemma override_candidate:
  assumes "override body now s = Inr (s', m, r)"
  shows "candidate s' = candidate s"
    and "field body ''key'' \<noteq> Some (JStr k) \<Longrightarrow> state s' k = state s k"
  using assms
  by (auto simp: override_def Let_def
      split: option.splits json.splits sum.splits if_splits)

lemma decodesD:
  assumes "decodes kv k v"
  obtains raw where "distinct (map fst kv)" "(k, raw) \<in> set kv" "next_of raw = v"
  using assms by (auto simp: decodes_def dest: map_of_SomeD)

lemma decodesI:
  "distinct (map fst kv) \<Longrightarrow> (k, raw) \<in> set kv \<Longrightarrow> decodes kv k (next_of raw)"
  by (simp add: decodes_def)

lemma visit_changes:
  assumes v: "visit T (key, raw) (st, cd, chg) = (st', cd', chg')"
    and f: "st key = st0 key"
    and i: "\<forall>k. map_of chg k = (if st k \<noteq> st0 k then st k else None)"
  shows "\<forall>k. map_of chg' k = (if st' k \<noteq> st0 k then st' k else None)"
proof
  fix k
  show "map_of chg' k = (if st' k \<noteq> st0 k then st' k else None)"
  proof (cases "k = key")
    case False
    with visit_other[OF v, of k] i show ?thesis by simp
  next
    case True
    from i f have n: "map_of chg key = None" by simp
    note va = visit_at[OF v]
    show ?thesis
    proof (cases "st key = Some (next_of raw)")
      case True
      with va(1) n f \<open>k = key\<close> show ?thesis by simp
    next
      case False
      show ?thesis
      proof (cases "T \<le> c_count (staged cd key (next_of raw))")
        case True
        with va(3) False n f \<open>k = key\<close> show ?thesis by (auto simp: js_set_at)
      next
        case n2: False
        with va(2) False n f \<open>k = key\<close> show ?thesis by simp
      qed
    qed
  qed
qed

lemma visit_distinct_changes:
  assumes "visit T e (st, cd, chg) = (st', cd', chg')" "distinct (map fst chg)"
  shows "distinct (map fst chg')"
  using assms
  by (cases e) (auto simp: visit_def Let_def commitChange_def distinct_js_set_entries
      split: if_splits)

lemma reconcile_changes:
  assumes "reconcile T kv (st, cd, chg) = (st', cd', chg')"
    and "distinct (map fst kv)"
    and "\<forall>k \<in> fst ` set kv. st k = st0 k"
    and "\<forall>k. map_of chg k = (if st k \<noteq> st0 k then st k else None)"
    and "distinct (map fst chg)"
  shows "(\<forall>k. map_of chg' k = (if st' k \<noteq> st0 k then st' k else None)) \<and>
         distinct (map fst chg')"
  using assms
proof (induction kv arbitrary: st cd chg)
  case Nil
  then show ?case by (simp add: reconcile_Nil)
next
  case (Cons e kv)
  obtain key raw where e: "e = (key, raw)" by (cases e) auto
  obtain st1 cd1 chg1 where v: "visit T (key, raw) (st, cd, chg) = (st1, cd1, chg1)"
    by (cases "visit T (key, raw) (st, cd, chg)") auto
  from Cons.prems(1) have r: "reconcile T kv (st1, cd1, chg1) = (st', cd', chg')"
    by (simp add: reconcile_Cons e v)
  from Cons.prems(2) have d: "distinct (map fst kv)" and nk: "key \<notin> fst ` set kv"
    by (auto simp: e)
  from Cons.prems(3) have f: "st key = st0 key" by (simp add: e)
  have rest: "\<forall>k \<in> fst ` set kv. st1 k = st0 k"
  proof
    fix k assume k: "k \<in> fst ` set kv"
    with nk have "k \<noteq> key" by auto
    with visit_other[OF v, of k] have "st1 k = st k" by simp
    with Cons.prems(3) k show "st1 k = st0 k" by auto
  qed
  from Cons.IH[OF r d rest visit_changes[OF v f Cons.prems(4)]
      visit_distinct_changes[OF v Cons.prems(5)]]
  show ?case .
qed

lemma loop_changes:
  assumes d: "distinct (map fst kv)" and l: "loop T (Inr kv) t1 t2 s = (s', m)"
  shows "m \<noteq> None \<longleftrightarrow> (\<exists>k. state s' k \<noteq> state s k)"
    and "m = Some msg \<Longrightarrow> ts msg = t2 \<and> distinct (map fst (changes msg)) \<and>
           (\<forall>k. map_of (changes msg) k = (if state s' k \<noteq> state s k then state s' k else None))"
proof -
  obtain st cd chg where r: "reconcile T kv (state s, candidate s, []) = (st, cd, chg)"
    by (cases "reconcile T kv (state s, candidate s, [])") auto
  from reconcile_changes[OF r d, of "state s"]
  have c: "\<forall>k. map_of chg k = (if st k \<noteq> state s k then st k else None)"
    and dc: "distinct (map fst chg)" by simp_all
  from l have s': "state s' = st" and m: "m = (if chg \<noteq> [] then Some (Patch t2 chg) else None)"
    by (auto simp: loop_success[OF r])
  have "chg \<noteq> [] \<longleftrightarrow> (\<exists>k. st k \<noteq> state s k)"
  proof
    assume "chg \<noteq> []"
    then obtain k v where "(k, v) \<in> set chg" by (cases chg) auto
    with dc have "map_of chg k = Some v" by simp
    with c have "st k \<noteq> state s k" by (auto split: if_splits)
    then show "\<exists>k. st k \<noteq> state s k" ..
  next
    assume "\<exists>k. st k \<noteq> state s k"
    then obtain k where k: "st k \<noteq> state s k" ..
    with c have "map_of chg k = st k" by simp
    show "chg \<noteq> []"
    proof
      assume "chg = []"
      with c have "\<forall>k. (if st k \<noteq> state s k then st k else None) = None" by simp
      with k have "st k = None" by (auto split: if_splits)
      from reconcile_dom[OF r] k this show False by (cases "state s k") auto
    qed
  qed
  with s' m show "m \<noteq> None \<longleftrightarrow> (\<exists>k. state s' k \<noteq> state s k)" by simp
  show "m = Some msg \<Longrightarrow> ts msg = t2 \<and> distinct (map fst (changes msg)) \<and>
           (\<forall>k. map_of (changes msg) k = (if state s' k \<noteq> state s k then state s' k else None))"
  proof -
    assume "m = Some msg"
    with m have "msg = Patch t2 chg" by (auto split: if_splits)
    with s' c dc show ?thesis by simp
  qed
qed

lemma snd_run_Cons:
  "snd (run T (ev # evs) s) =
     (case snd (exec T ev s) of None \<Rightarrow> [] | Some x \<Rightarrow> [x]) @ snd (run T evs (fst (exec T ev s)))"
  by (simp split: prod.splits)

declare run.simps(2) [simp del]

lemma exec_Poll: "exec T (Poll polled t1 t2) s = loop T polled t1 t2 s"
  by (simp add: exec_def)

lemma poll_decodesD:
  "poll_decodes k v ev \<Longrightarrow> \<exists>kv t1 t2. ev = Poll (Inr kv) t1 t2 \<and> decodes kv k v"
  by (cases "(k, v, ev)" rule: poll_decodes.cases) auto

lemma run_same_value:
  assumes "\<forall>ev \<in> set evs. poll_decodes k v ev" and "state s k = Some v"
  shows "state (fst (run T evs s)) k = Some v \<and>
         candidate (fst (run T evs s)) k = (if evs = [] then candidate s k else None) \<and>
         (\<forall>msg \<in> set (snd (run T evs s)). k \<notin> fst ` set (changes msg))"
  using assms
proof (induction evs arbitrary: s)
  case Nil
  then show ?case by simp
next
  case (Cons ev evs)
  from Cons.prems(1) have p: "poll_decodes k v ev" by simp
  then obtain kv t1 t2 where ev: "ev = Poll (Inr kv) t1 t2" and dk: "decodes kv k v"
    by (auto dest: poll_decodesD)
  from dk obtain raw where d: "distinct (map fst kv)" and m: "(k, raw) \<in> set kv"
    and n: "next_of raw = v" by (rule decodesD)
  from Cons.prems(2) n have c: "state s k = Some (next_of raw)" by simp
  let ?s1 = "fst (exec T ev s)"
  note lv = loop_same_value[OF d m c, of T t1 t2]
  from lv(1) Cons.prems(2) have s1: "state ?s1 k = Some v" by (simp add: ev exec_Poll)
  from lv(2) have c1: "candidate ?s1 k = None" by (simp add: ev exec_Poll)
  from lv(3) have m1: "\<forall>msg. snd (exec T ev s) = Some msg \<longrightarrow> k \<notin> fst ` set (changes msg)"
    by (simp add: ev exec_Poll)
  from Cons.prems(1) have "\<forall>ev \<in> set evs. poll_decodes k v ev" by simp
  from Cons.IH[OF this s1] have ih:
    "state (fst (run T evs ?s1)) k = Some v"
    "candidate (fst (run T evs ?s1)) k = (if evs = [] then candidate ?s1 k else None)"
    "\<forall>msg \<in> set (snd (run T evs ?s1)). k \<notin> fst ` set (changes msg)"
    by simp_all
  have "\<forall>msg \<in> set (snd (run T (ev # evs) s)). k \<notin> fst ` set (changes msg)"
  proof
    fix msg assume "msg \<in> set (snd (run T (ev # evs) s))"
    then have "snd (exec T ev s) = Some msg \<or> msg \<in> set (snd (run T evs ?s1))"
      by (auto simp: snd_run_Cons split: option.splits)
    with m1 ih(3) show "k \<notin> fst ` set (changes msg)" by blast
  qed
  with ih(1,2) c1 show ?case by (simp add: fst_run_Cons)
qed

subsection \<open>The candidate counter\<close>

lemma staged_counter: "staged cd k v = \<lparr>c_value = v, c_count = counter cd k v + 1\<rparr>"
  by (auto simp: staged_def counter_def js_get_def split: option.splits)

lemma counter_None [simp]: "cd k = None \<Longrightarrow> counter cd k v = 0"
  by (simp add: counter_def)

lemma counter_Some [simp]: "cd k = Some \<lparr>c_value = w, c_count = n\<rparr> \<Longrightarrow>
    counter cd k v = (if w = v then n else 0)"
  by (simp add: counter_def)

lemma counter_fresh: "\<forall>c. cd k = Some c \<longrightarrow> c_value c \<noteq> v \<Longrightarrow> counter cd k v = 0"
  by (simp add: counter_def split: option.splits)

lemma loop_at:
  assumes dk: "decodes kv k v" and c: "state s k \<noteq> Some v"
  shows "\<not> T \<le> counter (candidate s) k v + 1 \<Longrightarrow>
           state (fst (loop T (Inr kv) t1 t2 s)) k = state s k \<and>
           candidate (fst (loop T (Inr kv) t1 t2 s)) k
             = Some \<lparr>c_value = v, c_count = counter (candidate s) k v + 1\<rparr> \<and>
           (\<forall>msg. snd (loop T (Inr kv) t1 t2 s) = Some msg \<longrightarrow> k \<notin> fst ` set (changes msg))"
    and "T \<le> counter (candidate s) k v + 1 \<Longrightarrow>
           candidate (fst (loop T (Inr kv) t1 t2 s)) k = None"
    and "T \<le> counter (candidate s) k v + 1 \<Longrightarrow> k \<noteq> ''__proto__'' \<Longrightarrow>
           state (fst (loop T (Inr kv) t1 t2 s)) k = Some v \<and>
           (\<exists>msg. snd (loop T (Inr kv) t1 t2 s) = Some msg \<and> map_of (changes msg) k = Some v)"
proof -
  from dk obtain raw where d: "distinct (map fst kv)" and m: "(k, raw) \<in> set kv"
    and n: "next_of raw = v" by (rule decodesD)
  obtain st cd chg where r: "reconcile T kv (state s, candidate s, []) = (st, cd, chg)"
    by (cases "reconcile T kv (state s, candidate s, [])") auto
  note ra = reconcile_at[OF d m r, unfolded n staged_counter]
  from c have c': "state s k \<noteq> Some v" .
  show "\<not> T \<le> counter (candidate s) k v + 1 \<Longrightarrow>
           state (fst (loop T (Inr kv) t1 t2 s)) k = state s k \<and>
           candidate (fst (loop T (Inr kv) t1 t2 s)) k
             = Some \<lparr>c_value = v, c_count = counter (candidate s) k v + 1\<rparr> \<and>
           (\<forall>msg. snd (loop T (Inr kv) t1 t2 s) = Some msg \<longrightarrow> k \<notin> fst ` set (changes msg))"
  proof -
    assume "\<not> T \<le> counter (candidate s) k v + 1"
    with ra(2) c' have a: "st k = state s k"
      "cd k = Some \<lparr>c_value = v, c_count = counter (candidate s) k v + 1\<rparr>"
      "map_of chg k = None" by simp_all
    from a(3) have "k \<notin> fst ` set chg" by (simp add: map_of_eq_None_iff)
    with a show ?thesis by (auto simp: loop_success[OF r])
  qed
  show "T \<le> counter (candidate s) k v + 1 \<Longrightarrow>
           candidate (fst (loop T (Inr kv) t1 t2 s)) k = None"
    using ra(3) c' by (simp add: loop_success[OF r])
  show "T \<le> counter (candidate s) k v + 1 \<Longrightarrow> k \<noteq> ''__proto__'' \<Longrightarrow>
           state (fst (loop T (Inr kv) t1 t2 s)) k = Some v \<and>
           (\<exists>msg. snd (loop T (Inr kv) t1 t2 s) = Some msg \<and> map_of (changes msg) k = Some v)"
  proof -
    assume "T \<le> counter (candidate s) k v + 1" "k \<noteq> ''__proto__''"
    with ra(3) c' have a: "st k = Some v" "map_of chg k = Some v" by (simp_all add: js_set_at)
    from a(2) have "chg \<noteq> []" by auto
    with a show ?thesis by (simp add: loop_success[OF r])
  qed
qed

lemma loop_commit_only_if:
  assumes d: "distinct (map fst kv)"
    and m: "snd (loop T (Inr kv) t1 t2 s) = Some msg"
    and c: "map_of (changes msg) k = Some v"
  shows "decodes kv k v \<and> state s k \<noteq> Some v \<and> T \<le> counter (candidate s) k v + 1 \<and>
         state (fst (loop T (Inr kv) t1 t2 s)) k = Some v"
proof -
  obtain st cd chg where r: "reconcile T kv (state s, candidate s, []) = (st, cd, chg)"
    by (cases "reconcile T kv (state s, candidate s, [])") auto
  from m have msg: "msg = Patch t2 chg" by (auto simp: loop_success[OF r] split: if_splits)
  with c have ck: "map_of chg k = Some v" by simp
  have "k \<in> fst ` set kv"
  proof (rule ccontr)
    assume "k \<notin> fst ` set kv"
    from reconcile_other[OF r this] ck show False by simp
  qed
  then obtain raw where mem: "(k, raw) \<in> set kv" by auto
  note ra = reconcile_at[OF d mem r, unfolded staged_counter]
  have 1: "state s k \<noteq> Some (next_of raw)"
  proof
    assume "state s k = Some (next_of raw)"
    with ra(1) ck show False by simp
  qed
  have 2: "T \<le> counter (candidate s) k (next_of raw) + 1"
  proof (rule ccontr)
    assume "\<not> T \<le> counter (candidate s) k (next_of raw) + 1"
    with ra(2) 1 ck show False by simp
  qed
  from ra(3) 1 2 ck have 3: "k \<noteq> ''__proto__''" "next_of raw = v" "st k = Some v"
    by (auto simp: js_set_at split: if_splits)
  from decodesI[OF d mem] 1 2 3 show ?thesis by (simp add: loop_success[OF r])
qed

subsection \<open>Counters and observations\<close>

text \<open>
  The counter of a value never exceeds the number of most recent observations of the
  key that were this value without a break: an observation of another value, or of the
  committed one, removes the entry, and nothing else writes the candidate mapping.
\<close>

lemma streak_of_Nil [simp]: "streak_of v [] = 0"
  by (simp add: streak_of_def)

lemma streak_of_snoc [simp]:
  "streak_of v (xs @ [x]) = (if x = v then Suc (streak_of v xs) else 0)"
  by (simp add: streak_of_def)

lemma obs_entries_Nil [simp]: "obs_entries k [] = []"
  by (simp add: obs_entries_def)

lemma obs_entries_Cons [simp]:
  "obs_entries k ((key, raw) # kv) = (if key = k then [next_of raw] else []) @ obs_entries k kv"
  by (simp add: obs_entries_def)

lemma observations_Nil [simp]: "observations k [] = []"
  by (simp add: observations_def)

lemma observations_Cons [simp]:
  "observations k (ev # evs) = obs_event k ev @ observations k evs"
  by (simp add: observations_def)

lemma observations_append [simp]:
  "observations k (xs @ ys) = observations k xs @ observations k ys"
  by (simp add: observations_def)

lemma obs_entries_decodes: "decodes kv k v \<Longrightarrow> obs_entries k kv = [v]"
proof -
  assume dk: "decodes kv k v"
  then obtain raw where d: "distinct (map fst kv)" and m: "(k, raw) \<in> set kv"
    and n: "next_of raw = v" by (rule decodesD)
  from m obtain pre post where kv: "kv = pre @ (k, raw) # post" by (auto dest: split_list)
  with d have "k \<notin> fst ` set pre" "k \<notin> fst ` set post" by auto
  then have "filter (\<lambda>e. fst e = k) pre = []" "filter (\<lambda>e. fst e = k) post = []"
    by (auto simp: filter_empty_conv)
  with n show ?thesis by (simp add: obs_entries_def kv)
qed

lemma visit_streak:
  assumes v: "visit T (key, raw) (st, cd, chg) = (st', cd', chg')"
    and i: "\<forall>k v. counter cd k v \<le> int (streak_of v (h k))"
  shows "\<forall>k v. counter cd' k v \<le> int (streak_of v ((h(key := h key @ [next_of raw])) k))"
proof (intro allI)
  fix k w
  show "counter cd' k w \<le> int (streak_of w ((h(key := h key @ [next_of raw])) k))"
  proof (cases "k = key")
    case False
    with visit_other[OF v, of k] have "cd' k = cd k" by simp
    then have "counter cd' k w = counter cd k w" by (simp add: counter_def)
    with i False show ?thesis by simp
  next
    case True
    note va = visit_at[OF v, unfolded staged_counter]
    show ?thesis
    proof (cases "st key = Some (next_of raw)")
      case True
      with va(1) \<open>k = key\<close> show ?thesis by simp
    next
      case False
      show ?thesis
      proof (cases "T \<le> counter cd key (next_of raw) + 1")
        case True
        with va(3) False \<open>k = key\<close> show ?thesis by simp
      next
        case n: False
        with va(2) False have "cd' key = Some \<lparr>c_value = next_of raw,
            c_count = counter cd key (next_of raw) + 1\<rparr>" by simp
        with i[rule_format, of key "next_of raw"] \<open>k = key\<close> show ?thesis by auto
      qed
    qed
  qed
qed

lemma reconcile_streak:
  assumes "reconcile T kv (st, cd, chg) = (st', cd', chg')"
    and "\<forall>k v. counter cd k v \<le> int (streak_of v (h k))"
  shows "\<forall>k v. counter cd' k v \<le> int (streak_of v (h k @ obs_entries k kv))"
  using assms
proof (induction kv arbitrary: st cd chg h)
  case Nil
  then show ?case by (simp add: reconcile_Nil)
next
  case (Cons e kv)
  obtain key raw where e: "e = (key, raw)" by (cases e) auto
  obtain st1 cd1 chg1 where v: "visit T (key, raw) (st, cd, chg) = (st1, cd1, chg1)"
    by (cases "visit T (key, raw) (st, cd, chg)") auto
  from Cons.prems(1) have r: "reconcile T kv (st1, cd1, chg1) = (st', cd', chg')"
    by (simp add: reconcile_Cons e v)
  have eq: "(h(key := h key @ [next_of raw])) k @ obs_entries k kv = h k @ obs_entries k (e # kv)"
    for k by (simp add: e)
  from Cons.IH[OF r visit_streak[OF v Cons.prems(2)]]
  have "\<forall>k v. counter cd' k v
          \<le> int (streak_of v ((h(key := h key @ [next_of raw])) k @ obs_entries k kv))" .
  then show ?case unfolding eq .
qed

lemma exec_streak:
  assumes "\<forall>k v. counter (candidate s) k v \<le> int (streak_of v (h k))"
  shows "\<forall>k v. counter (candidate (fst (exec T ev s))) k v
                 \<le> int (streak_of v (h k @ obs_event k ev))"
proof (cases ev)
  case (Poll polled t1 t2)
  show ?thesis
  proof (cases polled)
    case (Inl e)
    with assms Poll show ?thesis by (simp add: exec_def loop_def)
  next
    case (Inr kv)
    obtain st cd chg where r: "reconcile T kv (state s, candidate s, []) = (st, cd, chg)"
      by (cases "reconcile T kv (state s, candidate s, [])") auto
    from reconcile_streak[OF r assms] show ?thesis
      by (simp add: Poll Inr exec_def loop_success[OF r])
  qed
next
  case (Post body now)
  show ?thesis
  proof (cases "override body now s")
    case (Inl e)
    with assms show ?thesis by (simp add: exec_def Post)
  next
    case (Inr x)
    then obtain s' m r where o: "override body now s = Inr (s', m, r)" by (cases x) auto
    from override_candidate(1)[OF o] assms show ?thesis by (simp add: exec_def Post o)
  qed
qed

lemma run_streak:
  assumes "\<forall>k v. counter (candidate s) k v \<le> int (streak_of v (h k))"
  shows "\<forall>k v. counter (candidate (fst (run T evs s))) k v
                 \<le> int (streak_of v (h k @ observations k evs))"
  using assms
proof (induction evs arbitrary: s h)
  case Nil
  then show ?case by simp
next
  case (Cons ev evs)
  from Cons.IH[OF exec_streak[OF Cons.prems, of T ev]]
  show ?case by (simp add: fst_run_Cons)
qed

lemma counter_le_streak:
  "counter (candidate (fst (run T evs init))) k v \<le> int (streak k v evs)"
proof -
  have "\<forall>k v. counter (candidate init) k v \<le> int (streak_of v ((\<lambda>k. []) k))"
    by (simp add: init_def)
  from run_streak[OF this, of T evs] show ?thesis by (simp add: streak_def)
qed

lemma streak_last_cycle:
  assumes "decodes kv k v"
  shows "streak k v (evs @ [Poll (Inr kv) t1 t2]) = Suc (streak k v evs)"
  using obs_entries_decodes[OF assms] by (simp add: streak_def)

subsection \<open>Runs of cycles that decode one key\<close>

lemma run_stable_commits:
  assumes "\<forall>ev \<in> set evs. poll_decodes k v ev" and "state s k \<noteq> Some v"
    and "k \<noteq> ''__proto__''" and "evs \<noteq> []"
    and "counter (candidate s) k v + int (length evs) = T"
  shows "state (fst (run T evs s)) k = Some v"
  using assms
proof (induction evs arbitrary: s)
  case Nil
  then show ?case by simp
next
  case (Cons ev evs)
  from Cons.prems(1) obtain kv t1 t2 where ev: "ev = Poll (Inr kv) t1 t2"
    and dk: "decodes kv k v" by (auto dest: poll_decodesD)
  let ?s1 = "fst (exec T ev s)"
  note la = loop_at[OF dk Cons.prems(2), of T t1 t2]
  show ?case
  proof (cases "evs = []")
    case True
    with Cons.prems(5) have "T \<le> counter (candidate s) k v + 1" by simp
    from la(3)[OF this Cons.prems(3)] True show ?thesis
      by (simp add: fst_run_Cons ev exec_Poll)
  next
    case False
    then have "0 < int (length evs)" by simp
    with Cons.prems(5) have n: "\<not> T \<le> counter (candidate s) k v + 1" by auto
    from la(1)[OF n] have s1: "state ?s1 k = state s k"
      and c1: "candidate ?s1 k = Some \<lparr>c_value = v, c_count = counter (candidate s) k v + 1\<rparr>"
      by (simp_all add: ev exec_Poll)
    from c1 have "counter (candidate ?s1) k v = counter (candidate s) k v + 1" by simp
    with Cons.prems(5) have t: "counter (candidate ?s1) k v + int (length evs) = T" by simp
    from Cons.prems(1) have p: "\<forall>ev \<in> set evs. poll_decodes k v ev" by simp
    from s1 Cons.prems(2) have "state ?s1 k \<noteq> Some v" by simp
    from Cons.IH[OF p this Cons.prems(3) False t] show ?thesis by (simp add: fst_run_Cons)
  qed
qed

lemma run_oscillating:
  assumes "list_all2 (poll_decodes k) vs evs" and "1 < T" and "distinct_adj vs"
    and "\<forall>v \<in> set vs. state s k \<noteq> Some v"
    and "\<forall>c. candidate s k = Some c \<longrightarrow> vs \<noteq> [] \<longrightarrow> c_value c \<noteq> hd vs"
  shows "state (fst (run T evs s)) k = state s k \<and>
         (evs \<noteq> [] \<longrightarrow> candidate (fst (run T evs s)) k = Some \<lparr>c_value = last vs, c_count = 1\<rparr>) \<and>
         (\<forall>msg \<in> set (snd (run T evs s)). k \<notin> fst ` set (changes msg))"
  using assms
proof (induction vs evs arbitrary: s rule: list_all2_induct)
  case Nil
  then show ?case by simp
next
  case (Cons v vs ev evs)
  from Cons.hyps(1) obtain kv t1 t2 where ev: "ev = Poll (Inr kv) t1 t2"
    and dk: "decodes kv k v" by (auto dest: poll_decodesD)
  let ?s1 = "fst (exec T ev s)"
  from Cons.prems(3) have ne: "state s k \<noteq> Some v" by simp
  from Cons.prems(4) have "counter (candidate s) k v = 0" by (simp add: counter_fresh)
  with Cons.prems(1) have n: "\<not> T \<le> counter (candidate s) k v + 1"
    and z: "counter (candidate s) k v + 1 = 1" by simp_all
  from loop_at(1)[OF dk ne n, of t1 t2] z
  have s1: "state ?s1 k = state s k"
    and c1: "candidate ?s1 k = Some \<lparr>c_value = v, c_count = 1\<rparr>"
    and m1: "\<forall>msg. snd (exec T ev s) = Some msg \<longrightarrow> k \<notin> fst ` set (changes msg)"
    by (simp_all add: ev exec_Poll)
  from Cons.prems(2) have da: "distinct_adj vs" and hd: "vs \<noteq> [] \<longrightarrow> v \<noteq> hd vs"
    by (cases vs; simp)+
  from Cons.prems(3) s1 have st: "\<forall>w \<in> set vs. state ?s1 k \<noteq> Some w" by simp
  from c1 hd have cf: "\<forall>c. candidate ?s1 k = Some c \<longrightarrow> vs \<noteq> [] \<longrightarrow> c_value c \<noteq> hd vs"
    by auto
  from Cons.IH[OF Cons.prems(1) da st cf] have ih:
    "state (fst (run T evs ?s1)) k = state ?s1 k"
    "evs \<noteq> [] \<longrightarrow> candidate (fst (run T evs ?s1)) k = Some \<lparr>c_value = last vs, c_count = 1\<rparr>"
    "\<forall>msg \<in> set (snd (run T evs ?s1)). k \<notin> fst ` set (changes msg)"
    by simp_all
  from Cons.hyps(2) have len: "evs = [] \<longleftrightarrow> vs = []" by (auto dest: list_all2_lengthD)
  have "\<forall>msg \<in> set (snd (run T (ev # evs) s)). k \<notin> fst ` set (changes msg)"
  proof
    fix msg assume "msg \<in> set (snd (run T (ev # evs) s))"
    then have "snd (exec T ev s) = Some msg \<or> msg \<in> set (snd (run T evs ?s1))"
      by (auto simp: snd_run_Cons split: option.splits)
    with m1 ih(3) show "k \<notin> fst ` set (changes msg)" by blast
  qed
  moreover have "candidate (fst (run T (ev # evs) s)) k = Some \<lparr>c_value = last (v # vs), c_count = 1\<rparr>"
    using ih(2) c1 len by (cases "evs = []") (simp_all add: fst_run_Cons)
  ultimately show ?case using ih(1) s1 by (simp add: fst_run_Cons)
qed

subsection \<open>The scenarios of the specification, with the default threshold\<close>

lemma scenario_first_read_stages:
  "state (fst (loop 2 (Inr [(''a'', Some ''x'')]) ''t1'' ''t2'' init)) ''a'' = None \<and>
   candidate (fst (loop 2 (Inr [(''a'', Some ''x'')]) ''t1'' ''t2'' init)) ''a''
     = Some \<lparr>c_value = ''x'', c_count = 1\<rparr> \<and>
   snd (loop 2 (Inr [(''a'', Some ''x'')]) ''t1'' ''t2'' init) = None"
  by (simp add: router_defs)

lemma scenario_second_read_commits:
  "state (fst (run 2 [Poll (Inr [(''a'', Some ''x'')]) ''t1'' ''t2'',
                      Poll (Inr [(''a'', Some ''x'')]) ''t3'' ''t4''] init)) ''a'' = Some ''x'' \<and>
   candidate (fst (run 2 [Poll (Inr [(''a'', Some ''x'')]) ''t1'' ''t2'',
                      Poll (Inr [(''a'', Some ''x'')]) ''t3'' ''t4''] init)) ''a'' = None \<and>
   snd (run 2 [Poll (Inr [(''a'', Some ''x'')]) ''t1'' ''t2'',
               Poll (Inr [(''a'', Some ''x'')]) ''t3'' ''t4''] init)
     = [Patch ''t4'' [(''a'', ''x'')]]"
  by (simp add: fst_run_Cons snd_run_Cons router_defs)

lemma scenario_other_value_restarts:
  "state (fst (run 2 [Poll (Inr [(''a'', Some ''x'')]) ''t1'' ''t2'',
                      Poll (Inr [(''a'', Some ''y'')]) ''t3'' ''t4''] init)) ''a'' = None \<and>
   candidate (fst (run 2 [Poll (Inr [(''a'', Some ''x'')]) ''t1'' ''t2'',
                      Poll (Inr [(''a'', Some ''y'')]) ''t3'' ''t4''] init)) ''a''
     = Some \<lparr>c_value = ''y'', c_count = 1\<rparr> \<and>
   snd (run 2 [Poll (Inr [(''a'', Some ''x'')]) ''t1'' ''t2'',
               Poll (Inr [(''a'', Some ''y'')]) ''t3'' ''t4''] init) = []"
  by (simp add: fst_run_Cons snd_run_Cons router_defs)

lemma scenario_failed_fetch_keeps_count:
  "candidate (fst (run 2 [Poll (Inr [(''a'', Some ''x'')]) ''t1'' ''t2'',
                          Poll (Inl (CsvFetchFailed 503)) ''t3'' ''t4''] init)) ''a''
     = Some \<lparr>c_value = ''x'', c_count = 1\<rparr> \<and>
   snd (run 2 [Poll (Inr [(''a'', Some ''x'')]) ''t1'' ''t2'',
               Poll (Inl (CsvFetchFailed 503)) ''t3'' ''t4''] init) = []"
  by (simp add: fst_run_Cons snd_run_Cons router_defs)

section \<open>The claims\<close>

subsection \<open>Failed fetches\<close>

text \<open>
  Claim C4. When the upstream fetch fails, by \<open>fetch\<close> throwing or by a status that is
  not ok (and likewise for any other exception of \<open>pollOnce\<close>), the cycle returns the
  router exactly as it was: the state mapping, the candidate mapping with every count,
  and \<open>lastFetchOkAt\<close>; and it makes no \<open>broadcast\<close> call. A candidate at count
  \<open>T - 1\<close> is therefore still at \<open>T - 1\<close> when the next cycle starts.
\<close>

theorem fetch_failure_aborts_cycle:
  "loop T (pollOnce parseCsvKeyValue FetchThrows) t1 t2 s = (s, None) \<and>
   loop T (pollOnce parseCsvKeyValue (Response False status text)) t1 t2 s = (s, None) \<and>
   loop T (Inl e) t1 t2 s = (s, None)"
  by (simp add: loop_def pollOnce_def)

subsection \<open>Validation in the override endpoint\<close>

text \<open>
  Claim C6, as stated, fails: the guard \<open>!key\<close> also rejects the empty string, which is
  a string and is present in the body.
\<close>

theorem override_empty_key_rejected:
  "field (Some (JObj [(''key'', JStr ''''), (''value'', JStr ''x'')])) ''key'' = Some (JStr '''') \<and>
   override (Some (JObj [(''key'', JStr ''''), (''value'', JStr ''x'')])) ''t'' init
     = Inr (init, None, Status400 ''Missing key'')"
  by (simp add: override_def field_def)

text \<open>
  Claim C6, amended. \<open>POST /override\<close> answers 400 exactly when the body's key is
  missing, is not a string, or is the empty string, and then it neither changes the
  router nor broadcasts. For a key that is a non-empty string other than \<open>__proto__\<close>,
  and a value whose conversion to a string succeeds, the value is stored at once, the
  candidate mapping and the threshold playing no part, and the response is
  \<open>{ ok, key, value }\<close> with the stored value.
\<close>

theorem override_validation:
  "((\<exists>s' m t. override body now s = Inr (s', m, Status400 t)) \<longleftrightarrow>
      (\<forall>k. field body ''key'' = Some (JStr k) \<longrightarrow> k = [])) \<and>
   ((\<forall>k. field body ''key'' = Some (JStr k) \<longrightarrow> k = []) \<longrightarrow>
      override body now s = Inr (s, None, Status400 ''Missing key'')) \<and>
   (\<forall>k v. field body ''key'' = Some (JStr k) \<and> k \<noteq> [] \<and> k \<noteq> ''__proto__'' \<and>
          to_text (field body ''value'') = Inr v \<longrightarrow>
      (\<exists>m. override body now s =
             Inr (s\<lparr>state := (state s)(k \<mapsto> v)\<rparr>, m, Json200 k (Own v))))"
proof (intro conjI allI impI)
  show "(\<exists>s' m t. override body now s = Inr (s', m, Status400 t)) \<longleftrightarrow>
      (\<forall>k. field body ''key'' = Some (JStr k) \<longrightarrow> k = [])"
    using override_rejected[of body now s] override_not_400[of body _ now s] by blast
next
  assume "\<forall>k. field body ''key'' = Some (JStr k) \<longrightarrow> k = []"
  then show "override body now s = Inr (s, None, Status400 ''Missing key'')"
    by (rule override_rejected)
next
  fix k v
  assume a: "field body ''key'' = Some (JStr k) \<and> k \<noteq> [] \<and> k \<noteq> ''__proto__'' \<and>
          to_text (field body ''value'') = Inr v"
  then have o: "override body now s =
           (if state s k = Some v then Inr (s, None, Json200 k (Own v))
            else Inr (s\<lparr>state := js_set (state s) k v\<rparr>, Some (Patch now [(k, v)]),
                      Json200 k (js_get (js_set (state s) k v) k)))"
    by (simp add: override_accepted)
  show "\<exists>m. override body now s =
             Inr (s\<lparr>state := (state s)(k \<mapsto> v)\<rparr>, m, Json200 k (Own v))"
  proof (cases "state s k = Some v")
    case True
    then have "(state s)(k \<mapsto> v) = state s" by (simp add: map_upd_triv)
    with True o show ?thesis by simp
  next
    case False
    with a o show ?thesis by (simp add: js_set_def js_get_def)
  qed
qed

text \<open>
  Claim C6, amended, at concrete requests: a body without a key is refused, and the body
  \<open>{ key: "a", value: "x" }\<close> is stored.
\<close>

theorem override_validation_witness:
  "override (Some (JObj [(''value'', JStr ''x'')])) ''t'' init
     = Inr (init, None, Status400 ''Missing key'') \<and>
   (\<exists>m. override (Some (JObj [(''key'', JStr ''a''), (''value'', JStr ''x'')])) ''t'' init =
      Inr (init\<lparr>state := (state init)(''a'' \<mapsto> ''x'')\<rparr>, m, Json200 ''a'' (Own ''x'')))"
  using override_validation[of "Some (JObj [(''value'', JStr ''x'')])" "''t''" init]
    override_validation[of "Some (JObj [(''key'', JStr ''a''), (''value'', JStr ''x'')])" "''t''" init]
  by (simp add: field_def to_text_def)

subsection \<open>Retention of committed keys\<close>

text \<open>
  Claim C7. A successful poll cycle whose decoded mapping does not contain the key
  \<open>k\<close> leaves \<open>state[k]\<close> as it was. No operation deletes a key of the state
  mapping: not \<open>commitChange\<close>, not a poll cycle or an override request (the two
  kinds of event), not any sequence of them.
\<close>

theorem state_keys_never_deleted:
  "(k \<notin> fst ` set kv \<longrightarrow> state (fst (loop T (Inr kv) t1 t2 s)) k = state s k) \<and>
   dom st \<subseteq> dom (snd (commitChange st key v)) \<and>
   dom (state s) \<subseteq> dom (state (fst (exec T ev s))) \<and>
   dom (state s) \<subseteq> dom (state (fst (run T evs s)))"
  using js_set_dom[of st key v]
  by (simp add: loop_absent_key exec_dom run_dom commitChange_def)

text \<open>
  Claim C7 at a concrete cycle: the state holds \<open>a\<close>, the decoded mapping holds only
  \<open>b\<close>, and \<open>a\<close> keeps its value.
\<close>

theorem state_keys_never_deleted_witness:
  "state (fst (loop 2 (Inr [(''b'', Some ''y'')]) ''t1'' ''t2''
       (init\<lparr>state := [''a'' \<mapsto> ''x'']\<rparr>))) ''a'' = Some ''x''"
  using state_keys_never_deleted[of "''a''" "[(''b'', Some ''y'')]" 2 "''t1''" "''t2''"
      "init\<lparr>state := [''a'' \<mapsto> ''x'']\<rparr>"]
  by simp

subsection \<open>Observing the committed value\<close>

text \<open>
  Claim C3. When a cycle decodes for \<open>k\<close> the value that is already committed, the
  candidate entry of \<open>k\<close> is deleted whatever its count was, the committed value stays,
  and the patch of the cycle, if there is one, does not mention \<open>k\<close>. Hence over any
  number of cycles that all decode the committed value, the state of \<open>k\<close> never changes
  and no patch mentions \<open>k\<close>.
\<close>

theorem committed_value_is_noop:
  "(decodes kv k v \<and> state s k = Some v \<longrightarrow>
      state (fst (loop T (Inr kv) t1 t2 s)) k = state s k \<and>
      candidate (fst (loop T (Inr kv) t1 t2 s)) k = None \<and>
      (\<forall>msg. snd (loop T (Inr kv) t1 t2 s) = Some msg \<longrightarrow> k \<notin> fst ` set (changes msg))) \<and>
   ((\<forall>ev \<in> set evs. poll_decodes k v ev) \<and> state s k = Some v \<longrightarrow>
      state (fst (run T evs s)) k = Some v \<and>
      candidate (fst (run T evs s)) k = (if evs = [] then candidate s k else None) \<and>
      (\<forall>msg \<in> set (snd (run T evs s)). k \<notin> fst ` set (changes msg)))"
proof (intro conjI impI)
  assume a: "decodes kv k v \<and> state s k = Some v"
  then obtain raw where d: "distinct (map fst kv)" and m: "(k, raw) \<in> set kv"
    and n: "next_of raw = v" by (auto elim: decodesD)
  from a n have c: "state s k = Some (next_of raw)" by simp
  note lv = loop_same_value[OF d m c, of T t1 t2]
  show "state (fst (loop T (Inr kv) t1 t2 s)) k = state s k" by (rule lv(1))
  show "candidate (fst (loop T (Inr kv) t1 t2 s)) k = None" by (rule lv(2))
  show "\<forall>msg. snd (loop T (Inr kv) t1 t2 s) = Some msg \<longrightarrow> k \<notin> fst ` set (changes msg)"
    by (rule lv(3))
next
  assume a: "(\<forall>ev \<in> set evs. poll_decodes k v ev) \<and> state s k = Some v"
  then have r: "state (fst (run T evs s)) k = Some v \<and>
         candidate (fst (run T evs s)) k = (if evs = [] then candidate s k else None) \<and>
         (\<forall>msg \<in> set (snd (run T evs s)). k \<notin> fst ` set (changes msg))"
    by (intro run_same_value) simp_all
  from r show "state (fst (run T evs s)) k = Some v" by simp
  from r show "candidate (fst (run T evs s)) k = (if evs = [] then candidate s k else None)"
    by simp
  from r show "\<forall>msg \<in> set (snd (run T evs s)). k \<notin> fst ` set (changes msg)" by simp
qed

text \<open>
  Claim C3 at a concrete state with \<open>T = 3\<close>: \<open>x\<close> is committed for \<open>a\<close> while a
  candidate \<open>y\<close> stands at count 2, that is \<open>T - 1\<close>. Decoding \<open>x\<close> deletes the
  candidate, and three such cycles leave \<open>x\<close> committed.
\<close>

theorem committed_value_is_noop_witness:
  "candidate (fst (loop 3 (Inr [(''a'', Some ''x'')]) ''t1'' ''t2''
      \<lparr>state = [''a'' \<mapsto> ''x''], candidate = [''a'' \<mapsto> \<lparr>c_value = ''y'', c_count = 2\<rparr>],
       lastFetchOkAt = None\<rparr>)) ''a'' = None \<and>
   state (fst (run 3 (replicate 3 (Poll (Inr [(''a'', Some ''x'')]) ''t1'' ''t2''))
      \<lparr>state = [''a'' \<mapsto> ''x''], candidate = [''a'' \<mapsto> \<lparr>c_value = ''y'', c_count = 2\<rparr>],
       lastFetchOkAt = None\<rparr>)) ''a'' = Some ''x'' \<and>
   candidate (fst (run 3 (replicate 3 (Poll (Inr [(''a'', Some ''x'')]) ''t1'' ''t2''))
      \<lparr>state = [''a'' \<mapsto> ''x''], candidate = [''a'' \<mapsto> \<lparr>c_value = ''y'', c_count = 2\<rparr>],
       lastFetchOkAt = None\<rparr>)) ''a'' = None"
proof -
  let ?s = "\<lparr>state = [''a'' \<mapsto> ''x''], candidate = [''a'' \<mapsto> \<lparr>c_value = ''y'', c_count = 2\<rparr>],
       lastFetchOkAt = None\<rparr>"
  let ?kv = "[(''a'', Some ''x'')]"
  have d: "decodes ?kv ''a'' ''x''" by (simp add: decodes_def)
  have s: "state ?s ''a'' = Some ''x''" by simp
  have p: "\<forall>ev \<in> set (replicate 3 (Poll (Inr ?kv) ''t1'' ''t2'')). poll_decodes ''a'' ''x'' ev"
    using d by simp
  show ?thesis
    using committed_value_is_noop[of ?kv "''a''" "''x''" ?s 3 "''t1''" "''t2''"
        "replicate 3 (Poll (Inr ?kv) ''t1'' ''t2'')"] d s p
    by simp
qed

subsection \<open>Candidate and committed value\<close>

text \<open>
  Claim C5, as stated, fails: the override endpoint writes the state and never touches
  the candidate mapping. With \<open>T = 2\<close>, one cycle stages \<open>x\<close> for \<open>a\<close>; an override
  then commits \<open>x\<close> for \<open>a\<close>, and the candidate entry, whose value now equals the
  committed one, is kept.
\<close>

theorem override_leaves_equal_candidate:
  "state (fst (run 2 [Poll (Inr [(''a'', Some ''x'')]) ''t1'' ''t2'',
                      Post (Some (JObj [(''key'', JStr ''a''), (''value'', JStr ''x'')])) ''t3'']
                init)) ''a'' = Some ''x'' \<and>
   candidate (fst (run 2 [Poll (Inr [(''a'', Some ''x'')]) ''t1'' ''t2'',
                      Post (Some (JObj [(''key'', JStr ''a''), (''value'', JStr ''x'')])) ''t3'']
                init)) ''a'' = Some \<lparr>c_value = ''x'', c_count = 1\<rparr> \<and>
   \<not> candidate_differs (fst (run 2 [Poll (Inr [(''a'', Some ''x'')]) ''t1'' ''t2'',
                      Post (Some (JObj [(''key'', JStr ''a''), (''value'', JStr ''x'')])) ''t3'']
                init))"
proof -
  let ?s = "fst (run 2 [Poll (Inr [(''a'', Some ''x'')]) ''t1'' ''t2'',
                      Post (Some (JObj [(''key'', JStr ''a''), (''value'', JStr ''x'')])) ''t3'']
                init)"
  have s: "state ?s ''a'' = Some ''x''"
    by (simp add: fst_run_Cons router_defs)
  have c: "candidate ?s ''a'' = Some \<lparr>c_value = ''x'', c_count = 1\<rparr>"
    by (simp add: fst_run_Cons router_defs)
  from s c have "\<not> candidate_differs ?s"
    unfolding candidate_differs_def by (metis candidate_entry.select_convs(1))
  with s c show ?thesis by simp
qed

text \<open>
  Claim C5, amended. The invariant holds at the start and every poll cycle, failed or
  successful, preserves it; a cycle that decodes the committed value for \<open>k\<close> resolves
  the equality by deleting the candidate entry of \<open>k\<close>. The override endpoint leaves
  the candidate mapping untouched and writes the state only at its own key, so it
  preserves the invariant at every other key.
\<close>

theorem candidate_differs_in_poll_cycles:
  "candidate_differs init \<and>
   (candidate_differs s \<longrightarrow> candidate_differs (fst (loop T polled t1 t2 s))) \<and>
   (decodes kv k v \<and> state s k = Some v \<longrightarrow> candidate (fst (loop T (Inr kv) t1 t2 s)) k = None) \<and>
   (\<forall>s' m r. override body now s = Inr (s', m, r) \<longrightarrow>
      candidate s' = candidate s \<and>
      (\<forall>k'. field body ''key'' \<noteq> Some (JStr k') \<longrightarrow> state s' k' = state s k'))"
proof (intro conjI impI allI)
  show "candidate_differs init" by (simp add: candidate_differs_def init_def)
next
  assume "candidate_differs s"
  then show "candidate_differs (fst (loop T polled t1 t2 s))" by (rule loop_differs)
next
  assume a: "decodes kv k v \<and> state s k = Some v"
  then obtain raw where d: "distinct (map fst kv)" and m: "(k, raw) \<in> set kv"
    and n: "next_of raw = v" by (auto elim: decodesD)
  from a n have "state s k = Some (next_of raw)" by simp
  from loop_same_value(2)[OF d m this]
  show "candidate (fst (loop T (Inr kv) t1 t2 s)) k = None" .
next
  fix s' m r
  assume "override body now s = Inr (s', m, r)"
  then show "candidate s' = candidate s" by (rule override_candidate(1))
next
  fix s' m r k'
  assume "override body now s = Inr (s', m, r)" "field body ''key'' \<noteq> Some (JStr k')"
  then show "state s' k' = state s k'" by (rule override_candidate(2))
qed

text \<open>
  Claim C5, amended, at concrete inputs: the first cycle from the initial state keeps the
  invariant; decoding the committed \<open>x\<close> deletes a candidate \<open>y\<close>; an override of
  \<open>a\<close> leaves the candidates and the key \<open>b\<close> alone.
\<close>

theorem candidate_differs_in_poll_cycles_witness:
  "candidate_differs (fst (loop 2 (Inr [(''a'', Some ''x'')]) ''t1'' ''t2'' init)) \<and>
   candidate (fst (loop 2 (Inr [(''a'', Some ''x'')]) ''t1'' ''t2''
      \<lparr>state = [''a'' \<mapsto> ''x''], candidate = [''a'' \<mapsto> \<lparr>c_value = ''y'', c_count = 1\<rparr>],
       lastFetchOkAt = None\<rparr>)) ''a'' = None \<and>
   (\<exists>s' m r. override (Some (JObj [(''key'', JStr ''a''), (''value'', JStr ''x'')])) ''t'' init
        = Inr (s', m, r) \<and> candidate s' = candidate init \<and> state s' ''b'' = state init ''b'')"
proof -
  let ?s = "\<lparr>state = [''a'' \<mapsto> ''x''], candidate = [''a'' \<mapsto> \<lparr>c_value = ''y'', c_count = 1\<rparr>],
       lastFetchOkAt = None\<rparr>"
  let ?kv = "[(''a'', Some ''x'')]"
  let ?b = "Some (JObj [(''key'', JStr ''a''), (''value'', JStr ''x'')])"
  have d: "decodes ?kv ''a'' ''x''" by (simp add: decodes_def)
  have o: "override ?b ''t'' init
      = Inr (init\<lparr>state := js_set (state init) ''a'' ''x''\<rparr>, Some (Patch ''t'' [(''a'', ''x'')]),
             Json200 ''a'' (js_get (js_set (state init) ''a'' ''x'') ''a''))"
    by (simp add: router_defs)
  have f: "field ?b ''key'' \<noteq> Some (JStr ''b'')" by (simp add: field_def)
  from candidate_differs_in_poll_cycles[of init 2 "Inr ?kv" "''t1''" "''t2''" "[]" "''a''" "''x''"
      None "''t''"]
  have 1: "candidate_differs (fst (loop 2 (Inr ?kv) ''t1'' ''t2'' init))" by blast
  from candidate_differs_in_poll_cycles[of ?s 2 "Inr ?kv" "''t1''" "''t2''" ?kv "''a''" "''x''"
      None "''t''"] d
  have 2: "candidate (fst (loop 2 (Inr ?kv) ''t1'' ''t2'' ?s)) ''a'' = None" by simp
  from candidate_differs_in_poll_cycles[of init 2 "Inr ?kv" "''t1''" "''t2''" ?kv "''a''" "''x''"
      ?b "''t''"] o f
  have 3: "\<exists>s' m r. override ?b ''t'' init = Inr (s', m, r) \<and> candidate s' = candidate init \<and>
      state s' ''b'' = state init ''b''"
    by blast
  from 1 2 3 show ?thesis by blast
qed

subsection \<open>The patch of a cycle\<close>

text \<open>
  Claim C8. In a successful poll cycle (the decoded mapping being that of an object, no
  key twice) a patch is broadcast exactly when the committed value of some key changed
  in the cycle. The patch carries the cycle's timestamp, no key twice, and its changes
  are exactly the keys whose committed value changed, each with its new committed
  value. \<open>broadcast\<close> sends this one patch to every client whose socket is open, once
  for each, and to no other client; when no committed value changed, nothing is sent to
  anybody.
\<close>

theorem patch_holds_committed_keys:
  "distinct (map fst kv) \<longrightarrow>
     ((snd (loop T (Inr kv) t1 t2 s) \<noteq> None) =
        (\<exists>k. state (fst (loop T (Inr kv) t1 t2 s)) k \<noteq> state s k)) \<and>
     (\<forall>msg. snd (loop T (Inr kv) t1 t2 s) = Some msg \<longrightarrow>
        ts msg = t2 \<and> distinct (map fst (changes msg)) \<and>
        (\<forall>k. map_of (changes msg) k =
              (if state (fst (loop T (Inr kv) t1 t2 s)) k \<noteq> state s k
               then state (fst (loop T (Inr kv) t1 t2 s)) k else None)) \<and>
        loop_sends clients T (Inr kv) t1 t2 s
          = map (\<lambda>c. (client_id c, msg)) (filter (\<lambda>c. readyState c = OPEN) clients) \<and>
        (\<forall>c \<in> set clients. readyState c = OPEN \<longrightarrow>
           (client_id c, msg) \<in> set (loop_sends clients T (Inr kv) t1 t2 s))) \<and>
     ((\<forall>k. state (fst (loop T (Inr kv) t1 t2 s)) k = state s k) \<longrightarrow>
        loop_sends clients T (Inr kv) t1 t2 s = [])"
proof (intro impI conjI allI)
  assume d: "distinct (map fst kv)"
  have l: "loop T (Inr kv) t1 t2 s = (fst (loop T (Inr kv) t1 t2 s), snd (loop T (Inr kv) t1 t2 s))"
    by simp
  show iff: "(snd (loop T (Inr kv) t1 t2 s) \<noteq> None) =
        (\<exists>k. state (fst (loop T (Inr kv) t1 t2 s)) k \<noteq> state s k)"
    by (rule loop_changes(1)[OF d l])
  {
    assume "\<forall>k. state (fst (loop T (Inr kv) t1 t2 s)) k = state s k"
    with iff have "snd (loop T (Inr kv) t1 t2 s) = None" by simp
    then show "loop_sends clients T (Inr kv) t1 t2 s = []" by (simp add: loop_sends_def)
  }
  fix msg assume m: "snd (loop T (Inr kv) t1 t2 s) = Some msg"
  note lc = loop_changes(2)[OF d l m]
  from lc show "ts msg = t2" by simp
  from lc show "distinct (map fst (changes msg))" by simp
  from m show sends: "loop_sends clients T (Inr kv) t1 t2 s
          = map (\<lambda>c. (client_id c, msg)) (filter (\<lambda>c. readyState c = OPEN) clients)"
    by (simp add: loop_sends_def broadcast_def)
  show "\<forall>c \<in> set clients. readyState c = OPEN \<longrightarrow>
           (client_id c, msg) \<in> set (loop_sends clients T (Inr kv) t1 t2 s)"
    by (auto simp: sends)
  fix k
  from lc show "map_of (changes msg) k =
              (if state (fst (loop T (Inr kv) t1 t2 s)) k \<noteq> state s k
               then state (fst (loop T (Inr kv) t1 t2 s)) k else None)" by simp
qed

text \<open>
  Claim C8 at concrete cycles with \<open>T = 2\<close>. In the first, \<open>a\<close> is staged at count 1 and
  decoded again, \<open>b\<close> is decoded for the first time: the patch holds \<open>a\<close> alone, \<open>a\<close> is
  committed and \<open>b\<close> is not, and of three clients the two open ones receive the patch.
  In the second, the committed value is decoded again and the open client receives
  nothing.
\<close>

theorem patch_holds_committed_keys_witness:
  "snd (loop 2 (Inr [(''a'', Some ''x''), (''b'', Some ''y'')]) ''t1'' ''t2''
      \<lparr>state = Map.empty, candidate = [''a'' \<mapsto> \<lparr>c_value = ''x'', c_count = 1\<rparr>],
       lastFetchOkAt = None\<rparr>) = Some (Patch ''t2'' [(''a'', ''x'')]) \<and>
   state (fst (loop 2 (Inr [(''a'', Some ''x''), (''b'', Some ''y'')]) ''t1'' ''t2''
      \<lparr>state = Map.empty, candidate = [''a'' \<mapsto> \<lparr>c_value = ''x'', c_count = 1\<rparr>],
       lastFetchOkAt = None\<rparr>)) ''a'' = Some ''x'' \<and>
   state (fst (loop 2 (Inr [(''a'', Some ''x''), (''b'', Some ''y'')]) ''t1'' ''t2''
      \<lparr>state = Map.empty, candidate = [''a'' \<mapsto> \<lparr>c_value = ''x'', c_count = 1\<rparr>],
       lastFetchOkAt = None\<rparr>)) ''b'' = None \<and>
   loop_sends [\<lparr>client_id = 1, readyState = OPEN\<rparr>, \<lparr>client_id = 2, readyState = CLOSED\<rparr>,
               \<lparr>client_id = 3, readyState = OPEN\<rparr>]
      2 (Inr [(''a'', Some ''x''), (''b'', Some ''y'')]) ''t1'' ''t2''
      \<lparr>state = Map.empty, candidate = [''a'' \<mapsto> \<lparr>c_value = ''x'', c_count = 1\<rparr>],
       lastFetchOkAt = None\<rparr>
     = [(1, Patch ''t2'' [(''a'', ''x'')]), (3, Patch ''t2'' [(''a'', ''x'')])] \<and>
   loop_sends [\<lparr>client_id = 1, readyState = OPEN\<rparr>] 2 (Inr [(''a'', Some ''x'')]) ''t1'' ''t2''
      \<lparr>state = [''a'' \<mapsto> ''x''], candidate = Map.empty, lastFetchOkAt = None\<rparr> = []"
proof -
  let ?s = "\<lparr>state = Map.empty, candidate = [''a'' \<mapsto> \<lparr>c_value = ''x'', c_count = 1\<rparr>],
       lastFetchOkAt = None\<rparr>"
  let ?kv = "[(''a'', Some ''x''), (''b'', Some ''y'')]"
  let ?cl = "[\<lparr>client_id = 1, readyState = OPEN\<rparr>, \<lparr>client_id = 2, readyState = CLOSED\<rparr>,
               \<lparr>client_id = 3, readyState = OPEN\<rparr>]"
  let ?s2 = "\<lparr>state = [''a'' \<mapsto> ''x''], candidate = Map.empty, lastFetchOkAt = None\<rparr>"
  have d: "distinct (map fst ?kv)" by simp
  have m: "snd (loop 2 (Inr ?kv) ''t1'' ''t2'' ?s) = Some (Patch ''t2'' [(''a'', ''x'')])"
    by (simp add: router_defs)
  note t = patch_holds_committed_keys[of ?kv 2 "''t1''" "''t2''" ?s ?cl]
  from t d m
  have c: "\<forall>k. map_of [(''a'', ''x'')] k =
      (if state (fst (loop 2 (Inr ?kv) ''t1'' ''t2'' ?s)) k \<noteq> state ?s k
       then state (fst (loop 2 (Inr ?kv) ''t1'' ''t2'' ?s)) k else None)"
    by simp
  from c[rule_format, of "''a''"] have a: "state (fst (loop 2 (Inr ?kv) ''t1'' ''t2'' ?s)) ''a'' = Some ''x''"
    by (simp split: if_splits)
  from c[rule_format, of "''b''"] have b: "state (fst (loop 2 (Inr ?kv) ''t1'' ''t2'' ?s)) ''b'' = None"
    by (simp split: if_splits)
  from t d m have s1: "loop_sends ?cl 2 (Inr ?kv) ''t1'' ''t2'' ?s
      = [(1, Patch ''t2'' [(''a'', ''x'')]), (3, Patch ''t2'' [(''a'', ''x'')])]"
    by simp
  have same: "\<forall>k. state (fst (loop 2 (Inr [(''a'', Some ''x'')]) ''t1'' ''t2'' ?s2)) k = state ?s2 k"
    by (simp add: router_defs)
  from patch_holds_committed_keys[of "[(''a'', Some ''x'')]" 2 "''t1''" "''t2''" ?s2
      "[\<lparr>client_id = 1, readyState = OPEN\<rparr>]"] same
  have s2: "loop_sends [\<lparr>client_id = 1, readyState = OPEN\<rparr>] 2 (Inr [(''a'', Some ''x'')])
      ''t1'' ''t2'' ?s2 = []"
    by simp
  from m a b s1 s2 show ?thesis by simp
qed

subsection \<open>The stability threshold\<close>

text \<open>
  Claim C1, as stated, fails: a successful cycle whose decoded mapping lacks the key
  neither advances nor resets the key's candidate. With \<open>T = 2\<close>, \<open>x\<close> is decoded for
  \<open>a\<close> in the first cycle, the second cycle succeeds without \<open>a\<close>, and the third cycle
  decodes \<open>x\<close> again and commits it: the two successful cycles that end with the commit
  did not both decode \<open>x\<close> for \<open>a\<close>.
\<close>

theorem commit_only_after_stable_reads_stated_fails:
  "snd (loop 2 (Inr [(''a'', Some ''x'')]) ''t5'' ''t6''
         (fst (run 2 [Poll (Inr [(''a'', Some ''x'')]) ''t1'' ''t2'',
                      Poll (Inr [(''b'', Some ''y'')]) ''t3'' ''t4''] init)))
     = Some (Patch ''t6'' [(''a'', ''x'')]) \<and>
   \<not> poll_decodes ''a'' ''x'' (Poll (Inr [(''b'', Some ''y'')]) ''t3'' ''t4'')"
  by (simp add: fst_run_Cons router_defs decodes_def)

text \<open>
  Claim C1, amended. From the initial state, after any sequence of poll cycles and
  override requests, a successful cycle commits \<open>v\<close> for \<open>k\<close> (its patch maps \<open>k\<close> to
  \<open>v\<close>) only if the cycle decodes \<open>v\<close> for \<open>k\<close>, \<open>v\<close> differs from the value committed
  for \<open>k\<close> when the cycle starts, the candidate counter for \<open>k\<close> and \<open>v\<close> reaches \<open>T\<close>
  with this observation, and the \<open>T\<close> most recent decoded observations of \<open>k\<close>, this
  one included, were all \<open>v\<close>. Observations are counted over the successful cycles
  whose decoded mapping has \<open>k\<close>; failed cycles, cycles without \<open>k\<close> and override
  requests neither count nor interrupt.
\<close>

theorem commit_only_after_stable_reads:
  "distinct (map fst kv) \<and> snd (loop T (Inr kv) t1 t2 (fst (run T evs init))) = Some msg \<and>
   map_of (changes msg) k = Some v \<longrightarrow>
     decodes kv k v \<and> state (fst (run T evs init)) k \<noteq> Some v \<and>
     T \<le> counter (candidate (fst (run T evs init))) k v + 1 \<and>
     T \<le> int (streak k v (evs @ [Poll (Inr kv) t1 t2]))"
proof
  assume a: "distinct (map fst kv) \<and>
    snd (loop T (Inr kv) t1 t2 (fst (run T evs init))) = Some msg \<and>
    map_of (changes msg) k = Some v"
  let ?s = "fst (run T evs init)"
  from a have d: "distinct (map fst kv)" and m: "snd (loop T (Inr kv) t1 t2 ?s) = Some msg"
    and c: "map_of (changes msg) k = Some v" by simp_all
  from loop_commit_only_if[OF d m c]
  have dk: "decodes kv k v" and ne: "state ?s k \<noteq> Some v"
    and t: "T \<le> counter (candidate ?s) k v + 1" by simp_all
  have "counter (candidate ?s) k v \<le> int (streak k v evs)" by (rule counter_le_streak)
  with t have "T \<le> int (streak k v (evs @ [Poll (Inr kv) t1 t2]))"
    by (simp add: streak_last_cycle[OF dk])
  with dk ne t show "decodes kv k v \<and> state ?s k \<noteq> Some v \<and>
     T \<le> counter (candidate ?s) k v + 1 \<and>
     T \<le> int (streak k v (evs @ [Poll (Inr kv) t1 t2]))" by simp
qed

text \<open>
  Claim C1, amended, at a concrete run with \<open>T = 2\<close>: \<open>x\<close> is decoded for \<open>a\<close> in two
  cycles, the second one commits it, and the streak of \<open>x\<close> is 2.
\<close>

theorem commit_only_after_stable_reads_witness:
  "snd (loop 2 (Inr [(''a'', Some ''x'')]) ''t3'' ''t4''
         (fst (run 2 [Poll (Inr [(''a'', Some ''x'')]) ''t1'' ''t2''] init)))
     = Some (Patch ''t4'' [(''a'', ''x'')]) \<and>
   2 \<le> int (streak ''a'' ''x'' ([Poll (Inr [(''a'', Some ''x'')]) ''t1'' ''t2'']
                                  @ [Poll (Inr [(''a'', Some ''x'')]) ''t3'' ''t4'']))"
proof -
  let ?kv = "[(''a'', Some ''x'')]"
  let ?evs = "[Poll (Inr ?kv) ''t1'' ''t2'']"
  have m: "snd (loop 2 (Inr ?kv) ''t3'' ''t4'' (fst (run 2 ?evs init)))
      = Some (Patch ''t4'' [(''a'', ''x'')])"
    by (simp add: fst_run_Cons router_defs)
  have d: "distinct (map fst ?kv)" by simp
  from commit_only_after_stable_reads[of ?kv 2 "''t3''" "''t4''" ?evs "Patch ''t4'' [(''a'', ''x'')]"
      "''a''" "''x''"] d m
  have "2 \<le> int (streak ''a'' ''x'' (?evs @ [Poll (Inr ?kv) ''t3'' ''t4'']))" by simp
  with m show ?thesis by simp
qed

subsection \<open>A deviating observation\<close>

text \<open>
  Claim C2, as stated, fails for the threshold \<open>T = 1\<close>: the entry
  \<open>{ value: observed, count: 1 }\<close> meets the threshold in the iteration that creates it,
  so the cycle deletes it and commits and broadcasts the value. From the initial state
  the first observation of \<open>x\<close> for \<open>a\<close> is committed, no candidate is left, and the
  oscillating observations \<open>x\<close>, \<open>y\<close>, \<open>x\<close> are committed one after the other.
\<close>

theorem deviating_observation_at_threshold_one:
  "state init ''a'' \<noteq> Some ''x'' \<and> candidate init ''a'' = None \<and>
   decodes [(''a'', Some ''x'')] ''a'' ''x'' \<and>
   candidate (fst (loop 1 (Inr [(''a'', Some ''x'')]) ''t1'' ''t2'' init)) ''a'' = None \<and>
   state (fst (loop 1 (Inr [(''a'', Some ''x'')]) ''t1'' ''t2'' init)) ''a'' = Some ''x'' \<and>
   snd (loop 1 (Inr [(''a'', Some ''x'')]) ''t1'' ''t2'' init) = Some (Patch ''t2'' [(''a'', ''x'')]) \<and>
   snd (run 1 [Poll (Inr [(''a'', Some ''x'')]) ''t1'' ''t2'',
               Poll (Inr [(''a'', Some ''y'')]) ''t3'' ''t4'',
               Poll (Inr [(''a'', Some ''x'')]) ''t5'' ''t6''] init)
     = [Patch ''t2'' [(''a'', ''x'')], Patch ''t4'' [(''a'', ''y'')], Patch ''t6'' [(''a'', ''x'')]]"
  by (simp add: fst_run_Cons snd_run_Cons router_defs decodes_def)

text \<open>
  Claim C2, amended. When the value decoded for \<open>k\<close> differs from the committed value
  and from the value of the candidate entry of \<open>k\<close>, or there is no such entry, the
  stability logic puts \<open>{ value: observed, count: 1 }\<close> in place of the entry. For
  \<open>1 < T\<close> this is the candidate of \<open>k\<close> at the end of the cycle, nothing is committed
  and no patch mentions \<open>k\<close>; for \<open>T \<le> 1\<close> the new entry meets the threshold in the
  same iteration, the value is committed, the patch holds it, and the entry is deleted.
  Hence, for \<open>1 < T\<close>, over cycles that decode for \<open>k\<close> values each different from the one
  before and from the committed value, the count is 1 after every cycle, the state of
  \<open>k\<close> never changes and no patch mentions \<open>k\<close>.
\<close>

theorem deviating_observation_restarts_count:
  "(state s k \<noteq> Some v \<and> (\<forall>c. candidate s k = Some c \<longrightarrow> c_value c \<noteq> v) \<longrightarrow>
      staged (candidate s) k v = \<lparr>c_value = v, c_count = 1\<rparr> \<and>
      (decodes kv k v \<longrightarrow>
         candidate (fst (loop T (Inr kv) t1 t2 s)) k
           = (if 1 < T then Some \<lparr>c_value = v, c_count = 1\<rparr> else None) \<and>
         (1 < T \<longrightarrow>
            state (fst (loop T (Inr kv) t1 t2 s)) k = state s k \<and>
            (\<forall>msg. snd (loop T (Inr kv) t1 t2 s) = Some msg \<longrightarrow> k \<notin> fst ` set (changes msg))) \<and>
         (T \<le> 1 \<and> k \<noteq> ''__proto__'' \<longrightarrow>
            state (fst (loop T (Inr kv) t1 t2 s)) k = Some v \<and>
            (\<exists>msg. snd (loop T (Inr kv) t1 t2 s) = Some msg \<and>
                   map_of (changes msg) k = Some v)))) \<and>
   (1 < T \<and> list_all2 (poll_decodes k) vs evs \<and> distinct_adj vs \<and>
    (\<forall>w \<in> set vs. state s k \<noteq> Some w) \<and>
    (\<forall>c. candidate s k = Some c \<longrightarrow> vs \<noteq> [] \<longrightarrow> c_value c \<noteq> hd vs) \<longrightarrow>
      state (fst (run T evs s)) k = state s k \<and>
      (evs \<noteq> [] \<longrightarrow>
         candidate (fst (run T evs s)) k = Some \<lparr>c_value = last vs, c_count = 1\<rparr>) \<and>
      (\<forall>msg \<in> set (snd (run T evs s)). k \<notin> fst ` set (changes msg)))"
proof (intro conjI impI)
  assume a: "state s k \<noteq> Some v \<and> (\<forall>c. candidate s k = Some c \<longrightarrow> c_value c \<noteq> v)"
  then have z: "counter (candidate s) k v = 0" by (simp add: counter_fresh)
  then show "staged (candidate s) k v = \<lparr>c_value = v, c_count = 1\<rparr>"
    by (simp add: staged_counter)
  assume dk: "decodes kv k v"
  from a have ne: "state s k \<noteq> Some v" by simp
  note la = loop_at[OF dk ne, of T t1 t2, unfolded z]
  show "candidate (fst (loop T (Inr kv) t1 t2 s)) k
           = (if 1 < T then Some \<lparr>c_value = v, c_count = 1\<rparr> else None)"
    using la(1) la(2) by (cases "1 < T") simp_all
  {
    assume "1 < T"
    with la(1) show "state (fst (loop T (Inr kv) t1 t2 s)) k = state s k"
      and "\<forall>msg. snd (loop T (Inr kv) t1 t2 s) = Some msg \<longrightarrow> k \<notin> fst ` set (changes msg)"
      by simp_all
  }
  assume b: "T \<le> 1 \<and> k \<noteq> ''__proto__''"
  with la(3) show "state (fst (loop T (Inr kv) t1 t2 s)) k = Some v"
    and "\<exists>msg. snd (loop T (Inr kv) t1 t2 s) = Some msg \<and> map_of (changes msg) k = Some v"
    by simp_all
next
  assume a: "1 < T \<and> list_all2 (poll_decodes k) vs evs \<and> distinct_adj vs \<and>
    (\<forall>w \<in> set vs. state s k \<noteq> Some w) \<and>
    (\<forall>c. candidate s k = Some c \<longrightarrow> vs \<noteq> [] \<longrightarrow> c_value c \<noteq> hd vs)"
  then have r: "state (fst (run T evs s)) k = state s k \<and>
         (evs \<noteq> [] \<longrightarrow> candidate (fst (run T evs s)) k = Some \<lparr>c_value = last vs, c_count = 1\<rparr>) \<and>
         (\<forall>msg \<in> set (snd (run T evs s)). k \<notin> fst ` set (changes msg))"
    by (intro run_oscillating) simp_all
  from r show "state (fst (run T evs s)) k = state s k" by simp
  from r show "\<forall>msg \<in> set (snd (run T evs s)). k \<notin> fst ` set (changes msg)" by simp
  assume "evs \<noteq> []"
  with r show "candidate (fst (run T evs s)) k = Some \<lparr>c_value = last vs, c_count = 1\<rparr>" by simp
qed

text \<open>
  Claim C2, amended, at concrete inputs: with \<open>T = 2\<close> a candidate \<open>x\<close> at count 1 is
  replaced by \<open>y\<close> at count 1, with \<open>T = 1\<close> the same observation commits \<open>y\<close>; and with
  \<open>T = 2\<close>, over the observations \<open>x\<close>, \<open>y\<close>, \<open>x\<close> from the initial state, nothing is
  committed and the count ends at 1.
\<close>

theorem deviating_observation_restarts_count_witness:
  "candidate (fst (loop 2 (Inr [(''a'', Some ''y'')]) ''t3'' ''t4''
      \<lparr>state = Map.empty, candidate = [''a'' \<mapsto> \<lparr>c_value = ''x'', c_count = 1\<rparr>],
       lastFetchOkAt = None\<rparr>)) ''a'' = Some \<lparr>c_value = ''y'', c_count = 1\<rparr> \<and>
   state (fst (loop 1 (Inr [(''a'', Some ''y'')]) ''t3'' ''t4''
      \<lparr>state = Map.empty, candidate = [''a'' \<mapsto> \<lparr>c_value = ''x'', c_count = 1\<rparr>],
       lastFetchOkAt = None\<rparr>)) ''a'' = Some ''y'' \<and>
   state (fst (run 2 [Poll (Inr [(''a'', Some ''x'')]) ''t1'' ''t2'',
                      Poll (Inr [(''a'', Some ''y'')]) ''t3'' ''t4'',
                      Poll (Inr [(''a'', Some ''x'')]) ''t5'' ''t6''] init)) ''a'' = None \<and>
   candidate (fst (run 2 [Poll (Inr [(''a'', Some ''x'')]) ''t1'' ''t2'',
                      Poll (Inr [(''a'', Some ''y'')]) ''t3'' ''t4'',
                      Poll (Inr [(''a'', Some ''x'')]) ''t5'' ''t6''] init)) ''a''
     = Some \<lparr>c_value = ''x'', c_count = 1\<rparr>"
proof -
  let ?s = "\<lparr>state = Map.empty, candidate = [''a'' \<mapsto> \<lparr>c_value = ''x'', c_count = 1\<rparr>],
       lastFetchOkAt = None\<rparr>"
  let ?evs = "[Poll (Inr [(''a'', Some ''x'')]) ''t1'' ''t2'',
               Poll (Inr [(''a'', Some ''y'')]) ''t3'' ''t4'',
               Poll (Inr [(''a'', Some ''x'')]) ''t5'' ''t6'']"
  have d: "decodes [(''a'', Some ''y'')] ''a'' ''y''" by (simp add: decodes_def)
  have l: "list_all2 (poll_decodes ''a'') [''x'', ''y'', ''x''] ?evs" by (simp add: decodes_def)
  have da: "distinct_adj [''x'', ''y'', ''x'']" by simp
  from deviating_observation_restarts_count[of ?s "''a''" "''y''" "[(''a'', Some ''y'')]" 2
      "''t3''" "''t4''" "[]" "[]"] d
  have 1: "candidate (fst (loop 2 (Inr [(''a'', Some ''y'')]) ''t3'' ''t4'' ?s)) ''a''
      = Some \<lparr>c_value = ''y'', c_count = 1\<rparr>" by simp
  from deviating_observation_restarts_count[of ?s "''a''" "''y''" "[(''a'', Some ''y'')]" 1
      "''t3''" "''t4''" "[]" "[]"] d
  have 3: "state (fst (loop 1 (Inr [(''a'', Some ''y'')]) ''t3'' ''t4'' ?s)) ''a'' = Some ''y''"
    by simp
  from deviating_observation_restarts_count[of init "''a''" "''y''" "[]" 2
      "''t3''" "''t4''" "[''x'', ''y'', ''x'']" ?evs] l da
  have 2: "state (fst (run 2 ?evs init)) ''a'' = None \<and>
      candidate (fst (run 2 ?evs init)) ''a'' = Some \<lparr>c_value = ''x'', c_count = 1\<rparr>"
    by (simp add: init_def)
  from 1 2 3 show ?thesis by simp
qed

subsection \<open>An absent key and the empty string\<close>

text \<open>
  Claim C9. For a key \<open>k\<close> that the state mapping does not have, a decoded observation
  of the empty string is a divergent observation: the cycle stages or advances the
  candidate \<open>{ value: "", count: n }\<close>, or commits the empty string when the count
  reaches \<open>T\<close>; and cycles that keep decoding the empty string commit it once the
  counter reaches \<open>T\<close>. (A decoded mapping never has the key \<open>__proto__\<close>.)
\<close>

theorem absent_key_empty_string_diverges:
  "(decodes kv k [] \<and> state s k = None \<longrightarrow>
      candidate (fst (loop T (Inr kv) t1 t2 s)) k
        = (if T \<le> counter (candidate s) k [] + 1 then None
           else Some \<lparr>c_value = [], c_count = counter (candidate s) k [] + 1\<rparr>) \<and>
      (k \<noteq> ''__proto__'' \<longrightarrow>
         state (fst (loop T (Inr kv) t1 t2 s)) k
           = (if T \<le> counter (candidate s) k [] + 1 then Some [] else None))) \<and>
   (k \<noteq> ''__proto__'' \<and> evs \<noteq> [] \<and> (\<forall>ev \<in> set evs. poll_decodes k [] ev) \<and>
    state s k = None \<and> counter (candidate s) k [] + int (length evs) = T \<longrightarrow>
      state (fst (run T evs s)) k = Some [])"
proof (intro conjI impI)
  assume a: "decodes kv k [] \<and> state s k = None"
  then have dk: "decodes kv k []" and ne: "state s k \<noteq> Some []" by simp_all
  note la = loop_at[OF dk ne, of T t1 t2]
  show "candidate (fst (loop T (Inr kv) t1 t2 s)) k
        = (if T \<le> counter (candidate s) k [] + 1 then None
           else Some \<lparr>c_value = [], c_count = counter (candidate s) k [] + 1\<rparr>)"
    using la(1) la(2) by (cases "T \<le> counter (candidate s) k [] + 1") simp_all
  assume "k \<noteq> ''__proto__''"
  with la(1) la(3) a show "state (fst (loop T (Inr kv) t1 t2 s)) k
           = (if T \<le> counter (candidate s) k [] + 1 then Some [] else None)"
    by (cases "T \<le> counter (candidate s) k [] + 1") simp_all
next
  assume a: "k \<noteq> ''__proto__'' \<and> evs \<noteq> [] \<and> (\<forall>ev \<in> set evs. poll_decodes k [] ev) \<and>
    state s k = None \<and> counter (candidate s) k [] + int (length evs) = T"
  then show "state (fst (run T evs s)) k = Some []"
    by (intro run_stable_commits) simp_all
qed

text \<open>
  Claim C9 at concrete inputs with \<open>T = 2\<close>, from the initial state: a value of white
  space alone is observed as the empty string; the first cycle stages it at count 1 and
  commits nothing; the second cycle commits the empty string.
\<close>

theorem absent_key_empty_string_diverges_witness:
  "decodes [(''a'', Some '' '')] ''a'' [] \<and>
   candidate (fst (loop 2 (Inr [(''a'', Some '' '')]) ''t1'' ''t2'' init)) ''a''
     = Some \<lparr>c_value = [], c_count = 1\<rparr> \<and>
   state (fst (loop 2 (Inr [(''a'', Some '' '')]) ''t1'' ''t2'' init)) ''a'' = None \<and>
   state (fst (run 2 [Poll (Inr [(''a'', Some '' '')]) ''t1'' ''t2'',
                      Poll (Inr [(''a'', Some [])]) ''t3'' ''t4''] init)) ''a'' = Some []"
proof -
  have n: "next_of (Some '' '') = []" by (simp add: next_of_def trim_def is_space_def)
  have d: "decodes [(''a'', Some '' '')] ''a'' []" by (simp add: decodes_def n)
  have d2: "decodes [(''a'', Some [])] ''a'' []" by (simp add: decodes_def)
  let ?evs = "[Poll (Inr [(''a'', Some '' '')]) ''t1'' ''t2'',
               Poll (Inr [(''a'', Some [])]) ''t3'' ''t4'']"
  note t = absent_key_empty_string_diverges[of "[(''a'', Some '' '')]" "''a''" init 2
      "''t1''" "''t2''" ?evs]
  from t d have 1: "candidate (fst (loop 2 (Inr [(''a'', Some '' '')]) ''t1'' ''t2'' init)) ''a''
     = Some \<lparr>c_value = [], c_count = 1\<rparr>"
    and 2: "state (fst (loop 2 (Inr [(''a'', Some '' '')]) ''t1'' ''t2'' init)) ''a'' = None"
    by (simp_all add: init_def)
  from t d d2 have 3: "state (fst (run 2 ?evs init)) ''a'' = Some []"
    by (simp add: init_def)
  from d 1 2 3 show ?thesis by simp
qed

subsection \<open>The override endpoint and the key __proto__\<close>

text \<open>
  Claim C10 describes what the handler does for every accepted key but one (lemma
  \<open>override_accepted\<close>). For the key \<open>__proto__\<close>, which the guard accepts, the
  assignment \<open>state[key] = v\<close> stores nothing: the request broadcasts a patch, the
  state has no such key afterwards, and the response carries \<open>Object.prototype\<close> in
  place of a stored value. A value that is an object with an own property \<open>toString\<close>
  makes the handler throw before it responds.
\<close>

theorem override_proto_key_not_stored:
  "override (Some (JObj [(''key'', JStr ''__proto__''), (''value'', JStr ''x'')])) ''t'' init
     = Inr (init, Some (Patch ''t'' [(''__proto__'', ''x'')]), Json200 ''__proto__'' Inherited) \<and>
   override (Some (JObj [(''key'', JStr ''a''), (''value'', JObj [(''toString'', JNull)])])) ''t'' init
     = Inl TypeError"
  by (simp add: router_defs)

end
